theory Spec2Isabelle
  imports Main "HOL-Library.Sublist" "HOL-Library.Word"
begin

section \<open>Strings: the library functions the bot relies on\<close>

text \<open>
  A Go string is a sequence of bytes; it is modelled as an Isabelle \<open>string\<close>
  (a list of 8-bit characters). The functions of this section are the ones of Go's
  standard library that \<^verbatim>\<open>mission_bot.go\<close> calls on strings:
  \<^verbatim>\<open>strings.Contains\<close>, \<^verbatim>\<open>strings.TrimSpace\<close>, \<^verbatim>\<open>strconv.Atoi\<close>,
  the \<^verbatim>\<open>%d\<close> verb of \<^verbatim>\<open>fmt\<close> and \<^verbatim>\<open>bufio.Reader.ReadString\<close>.
\<close>

subsection \<open>strings.Contains\<close>

fun Contains :: "string \<Rightarrow> string \<Rightarrow> bool" where
  "Contains [] substr = (substr = [])"
| "Contains (c # s) substr = (prefix substr (c # s) \<or> Contains s substr)"

subsection \<open>The verb %d\<close>

definition digit :: "nat \<Rightarrow> char" where
  "digit d = ''0123456789'' ! d"

fun itoa_nat :: "nat \<Rightarrow> string" where
  "itoa_nat n = (if n < 10 then [digit n] else itoa_nat (n div 10) @ [digit (n mod 10)])"

declare itoa_nat.simps [simp del]

definition itoa :: "int \<Rightarrow> string" where
  "itoa i = (if i < 0 then CHR ''-'' # itoa_nat (nat (- i)) else itoa_nat (nat i))"

subsection \<open>strconv.Atoi\<close>

text \<open>
  \<^verbatim>\<open>strconv.Atoi\<close> accepts an optional sign followed by one or more decimal digits
  and fails on anything else, and on a value outside the range of \<^verbatim>\<open>int\<close>
  (64 bits on the platforms Go builds this program for). \<open>None\<close> is the error.
\<close>

definition is_digit :: "char \<Rightarrow> bool" where
  "is_digit c = (48 \<le> (of_char c :: nat) \<and> (of_char c :: nat) \<le> 57)"

definition digit_val :: "char \<Rightarrow> int" where
  "digit_val c = int (of_char c) - 48"

definition digits_val :: "string \<Rightarrow> int" where
  "digits_val ds = foldl (\<lambda>n ch. n * 10 + digit_val ch) 0 ds"

definition Atoi :: "string \<Rightarrow> int option" where
  "Atoi s =
     (let neg = (s \<noteq> [] \<and> hd s = CHR ''-'');
          ds = (if s \<noteq> [] \<and> (hd s = CHR ''-'' \<or> hd s = CHR ''+'') then tl s else s)
      in if ds = [] \<or> \<not> list_all is_digit ds then None
         else let n = (if neg then - digits_val ds else digits_val ds)
              in if - (2 ^ 63) \<le> n \<and> n < 2 ^ 63 then Some n else None)"

subsection \<open>strings.TrimSpace\<close>

text \<open>
  \<^verbatim>\<open>strings.TrimSpace\<close> removes every leading and every trailing rune \<open>r\<close> with
  \<^verbatim>\<open>unicode.IsSpace(r)\<close>: tab, line feed, vertical tab, form feed, carriage
  return, space, U+0085, U+00A0, U+1680, U+2000 to U+200A, U+2028, U+2029, U+202F,
  U+205F and U+3000. \<open>spaceRunes\<close> lists their UTF-8 encodings. A byte sequence
  that is not the encoding of one of them decodes to another rune (or to the error
  rune) and stops the trimming.
\<close>

definition asciiSpace :: "char list" where
  "asciiSpace = [CHR 0x09, CHR 0x0A, CHR 0x0B, CHR 0x0C, CHR 0x0D, CHR 0x20]"

definition spaceRunes :: "string list" where
  "spaceRunes =
     map (\<lambda>c. [c]) asciiSpace @
     [[CHR 0xC2, CHR 0x85], [CHR 0xC2, CHR 0xA0], [CHR 0xE1, CHR 0x9A, CHR 0x80]] @
     map (\<lambda>c. [CHR 0xE2, CHR 0x80, c])
       [CHR 0x80, CHR 0x81, CHR 0x82, CHR 0x83, CHR 0x84, CHR 0x85, CHR 0x86, CHR 0x87,
        CHR 0x88, CHR 0x89, CHR 0x8A, CHR 0xA8, CHR 0xA9, CHR 0xAF] @
     [[CHR 0xE2, CHR 0x81, CHR 0x9F], [CHR 0xE3, CHR 0x80, CHR 0x80]]"

definition leadingSpace :: "string \<Rightarrow> string option" where
  "leadingSpace s = find (\<lambda>r. prefix r s) spaceRunes"

definition trailingSpace :: "string \<Rightarrow> string option" where
  "trailingSpace s = find (\<lambda>r. suffix r s) spaceRunes"

lemma spaceRunes_nonempty: "r \<in> set spaceRunes \<Longrightarrow> r \<noteq> []"
  by (auto simp: spaceRunes_def asciiSpace_def)

lemma leadingSpace_Some: "leadingSpace s = Some r \<Longrightarrow> r \<in> set spaceRunes \<and> prefix r s"
  unfolding leadingSpace_def by (auto simp: find_Some_iff)

lemma trailingSpace_Some: "trailingSpace s = Some r \<Longrightarrow> r \<in> set spaceRunes \<and> suffix r s"
  unfolding trailingSpace_def by (auto simp: find_Some_iff)

function TrimLeft :: "string \<Rightarrow> string" where
  "TrimLeft s =
     (case leadingSpace s of
        None \<Rightarrow> s
      | Some r \<Rightarrow> TrimLeft (drop (length r) s))"
  by pat_completeness auto
termination
proof (relation "measure length")
  show "wf (measure length)" by simp
next
  fix s r
  assume "leadingSpace s = Some r"
  then have "r \<noteq> []" and "prefix r s"
    using leadingSpace_Some spaceRunes_nonempty by blast+
  then show "(drop (length r) s, s) \<in> measure length"
    by (cases s) (auto simp: prefix_def)
qed

function TrimRight :: "string \<Rightarrow> string" where
  "TrimRight s =
     (case trailingSpace s of
        None \<Rightarrow> s
      | Some r \<Rightarrow> TrimRight (take (length s - length r) s))"
  by pat_completeness auto
termination
proof (relation "measure length")
  show "wf (measure length)" by simp
next
  fix s r
  assume "trailingSpace s = Some r"
  then have "r \<noteq> []" and "suffix r s"
    using trailingSpace_Some spaceRunes_nonempty by blast+
  then show "(take (length s - length r) s, s) \<in> measure length"
    by (cases s) (auto simp: suffix_def)
qed

declare TrimLeft.simps [simp del] TrimRight.simps [simp del]

definition TrimSpace :: "string \<Rightarrow> string" where
  "TrimSpace s = TrimRight (TrimLeft s)"

subsection \<open>bufio.Reader.ReadString\<close>

text \<open>
  \<^verbatim>\<open>ReadString(delim)\<close> returns the input up to and including the first
  occurrence of the delimiter, or all of the input when it ends before a delimiter.
\<close>

definition ReadString :: "char \<Rightarrow> string \<Rightarrow> string" where
  "ReadString delim input =
     takeWhile (\<lambda>c. c \<noteq> delim) input @ (if delim \<in> set input then [delim] else [])"

section \<open>Data model and environment\<close>

record Task =
  ID :: string
  CampaignUid :: string
  ListingUid :: string
  OrganizationUid :: string

record Target =
  Slug :: string

text \<open>
  The platform is an opaque request/response boundary. A request is identified by
  the function that issues it and by what that function puts into it (the bearer
  token, and the task or the slug the URL is built from). The answer to a request is
  either an error of \<^verbatim>\<open>http.NewRequest\<close> or \<^verbatim>\<open>client.Do\<close> (its message), or a
  response: the status code, the value of the \<^verbatim>\<open>Retry-After\<close> header (empty
  when absent, as \<^verbatim>\<open>Header.Get\<close> returns it) and the result of decoding the body
  as JSON (\<open>Inl\<close> the decoder's error message).
\<close>

datatype request =
    GetTasksReq string
  | ClaimReq string Task
  | GetTargetsReq string
  | SignupReq string string

datatype 'b response =
    TransportError string
  | Response nat string "string + 'b"

text \<open>
  Everything a loop does to the outside, and everything it receives from it, is
  recorded in a trace, in order. \<open>Http\<close> is a request with the answer to it,
  \<open>HttpPending\<close> a request that is never answered. \<open>Sleep\<close> carries the \<^verbatim>\<open>time.Duration\<close> (a
  number of nanoseconds), \<open>Print\<close> what \<^verbatim>\<open>fmt.Print\<close> writes, \<open>Println\<close> a
  line written to standard output, \<open>Log\<close> the message of a line written by
  \<^verbatim>\<open>log.Println\<close> or \<^verbatim>\<open>log.Printf\<close>, \<open>Stdin\<close> the line read from standard
  input, \<open>ChanRecv\<close> and \<open>ChanSend\<close> a token received from and sent to
  \<^verbatim>\<open>tokenChan\<close>, and \<open>SignupCall\<close> the call of \<^verbatim>\<open>signupTarget\<close> that
  \<^verbatim>\<open>pollUnregisteredTargets\<close> makes for a slug.
\<close>

datatype 'b event =
    Http request "'b response"
  | HttpPending request
  | Sleep int
  | Print string
  | Println string
  | Log string
  | Stdin string
  | ChanRecv string
  | ChanSend string
  | SignupCall string

text \<open>
  The environment of one goroutine is a finite script: \<open>http\<close> holds the answers to
  its successive requests, \<open>chan\<close> the outcomes of its successive non-blocking
  receives on \<^verbatim>\<open>tokenChan\<close> (\<open>None\<close>: the \<^verbatim>\<open>default\<close> branch; nothing is
  pending once the list is used up), and \<open>stdin\<close> the input that each successive
  \<^verbatim>\<open>bufio.NewReader(os.Stdin)\<close> obtains (end of file once the list is used up).
  \<open>knownSlugs\<close> is the \<^verbatim>\<open>sync.Map\<close> that \<^verbatim>\<open>main\<close> creates and hands to
  \<^verbatim>\<open>pollUnregisteredTargets\<close> by pointer: shared memory, so part of the world.
  A request that the script has no answer for never completes: the goroutine is blocked
  in it, which is how a run over a finite script ends unless the function returns
  (\<open>Return\<close> with the result, or \<open>Blocked\<close>, each with the world as it is then).
  A send on \<^verbatim>\<open>tokenChan\<close> is taken to complete (the other goroutine receives it).
\<close>

record 'b world =
  http :: "'b response list"
  chan :: "string option list"
  stdin :: "string list"
  knownSlugs :: "string \<rightharpoonup> bool"
  trace :: "'b event list"

datatype ('a, 'w) outcome = returned: Return 'a (out_world: 'w) | Blocked (out_world: 'w)

definition emit :: "'b event \<Rightarrow> 'b world \<Rightarrow> 'b world" where
  "emit e w = w\<lparr>trace := trace w @ [e]\<rparr>"

definition Do :: "request \<Rightarrow> 'b world \<Rightarrow> ('b response, 'b world) outcome" where
  "Do req w =
     (case http w of
        [] \<Rightarrow> Blocked (emit (HttpPending req) w)
      | resp # rest \<Rightarrow> Return resp (emit (Http req resp) (w\<lparr>http := rest\<rparr>)))"

definition Second :: int where
  "Second = 1000000000"

definition Minute :: int where
  "Minute = 60 * Second"

text \<open>\<^verbatim>\<open>time.Duration(secs) * time.Second\<close>: a product of 64-bit signed integers.\<close>

definition Seconds :: "int \<Rightarrow> int" where
  "Seconds secs = sint (word_of_int secs * word_of_int Second :: 64 word)"

section \<open>The functions of mission_bot.go\<close>

subsection \<open>getTasks\<close>

text \<open>
  \<open>tasksBackoff\<close> is the wait of \<^verbatim>\<open>getTasks\<close> after a 429, between reading
  the \<^verbatim>\<open>Retry-After\<close> header and the recursive call.
\<close>

definition tasksBackoff :: "string \<Rightarrow> 'b world \<Rightarrow> 'b world" where
  "tasksBackoff retryAfter w =
     (if retryAfter = [] then
        emit (Sleep (30 * Second))
          (emit (Println ''Got 429 Too Many Requests. Sleeping 30 seconds.'') w)
      else
        (case Atoi retryAfter of
           Some secs \<Rightarrow>
             emit (Sleep (Seconds secs))
               (emit (Println (''Got 429 Too Many Requests, waiting '' @ itoa secs @ '' seconds...'')) w)
         | None \<Rightarrow> emit (Sleep (30 * Second)) w))"

lemma http_emit [simp]: "http (emit e w) = http w"
  by (simp add: emit_def)

lemma chan_emit [simp]: "chan (emit e w) = chan w"
  by (simp add: emit_def)

lemma stdin_emit [simp]: "stdin (emit e w) = stdin w"
  by (simp add: emit_def)

lemma knownSlugs_emit [simp]: "knownSlugs (emit e w) = knownSlugs w"
  by (simp add: emit_def)

lemma trace_emit [simp]: "trace (emit e w) = trace w @ [e]"
  by (simp add: emit_def)

lemma http_tasksBackoff [simp]: "http (tasksBackoff h w) = http w"
  by (simp add: tasksBackoff_def split: option.splits)

lemma Do_Return_http: "Do req w = Return resp w' \<Longrightarrow> http w = resp # http w'"
  by (auto simp: Do_def split: list.splits)

function getTasks :: "string \<Rightarrow> Task list world \<Rightarrow> (string + Task list, Task list world) outcome" where
  "getTasks token w =
     (case Do (GetTasksReq token) w of
        Blocked w' \<Rightarrow> Blocked w'
      | Return resp w' \<Rightarrow>
          (case resp of
             TransportError err \<Rightarrow> Return (Inl err) w'
           | Response StatusCode retryAfter body \<Rightarrow>
               if StatusCode = 200 then
                 (case body of
                    Inl err \<Rightarrow> Return (Inl err) w'
                  | Inr tasks \<Rightarrow> Return (Inr tasks) w')
               else if StatusCode = 401 then Return (Inl ''unauthorized (401)'') w'
               else if StatusCode = 429 then getTasks token (tasksBackoff retryAfter w')
               else Return (Inl (''failed to retrieve tasks, status code: '' @ itoa (int StatusCode))) w'))"
  by pat_completeness auto
termination
  by (relation "measure (\<lambda>(token, w). length (http w))") (auto dest: Do_Return_http)

declare getTasks.simps [simp del]

subsection \<open>postClaimTask\<close>

definition postClaimTask :: "string \<Rightarrow> Task \<Rightarrow> 'b world \<Rightarrow> (string option, 'b world) outcome" where
  "postClaimTask token task w =
     (case Do (ClaimReq token task) w of
        Blocked w' \<Rightarrow> Blocked w'
      | Return resp w' \<Rightarrow>
          (case resp of
             TransportError err \<Rightarrow> Return (Some err) w'
           | Response StatusCode retryAfter body \<Rightarrow>
               if StatusCode = 201 then
                 Return None (emit (Println ''Mission claimed successfully.'') w')
               else if StatusCode = 412 then
                 Return (Some ''Mission cannot be claimed anymore (412)'') w'
               else if StatusCode = 401 then Return (Some ''Unauthorized (401)'') w'
               else if StatusCode = 403 then
                 Return (Some ''Failed to claim task, status code: 403'') w'
               else Return (Some (''Failed to claim task, status code: '' @ itoa (int StatusCode))) w'))"

subsection \<open>refreshToken\<close>

definition refreshToken :: "'b world \<Rightarrow> string \<times> 'b world" where
  "refreshToken w =
     (let w1 = emit (Print (''Token expired or invalid. Please enter a new token:'' @ [CHR 0x0A] @ ''> '')) w;
          input = (case stdin w1 of [] \<Rightarrow> [] | i # rest \<Rightarrow> i);
          newToken = ReadString (CHR 0x0A) input
      in (TrimSpace newToken, emit (Stdin newToken) (w1\<lparr>stdin := tl (stdin w1)\<rparr>)))"

subsection \<open>mainLoop\<close>

text \<open>
  The \<^verbatim>\<open>select\<close> at the head of both loops: a token pending on \<^verbatim>\<open>tokenChan\<close>
  replaces the current one.
\<close>

definition selectToken :: "string \<Rightarrow> 'b world \<Rightarrow> string \<times> 'b world" where
  "selectToken token w =
     (case chan w of
        [] \<Rightarrow> (token, w)
      | None # rest \<Rightarrow> (token, w\<lparr>chan := rest\<rparr>)
      | Some newToken # rest \<Rightarrow> (newToken, emit (ChanRecv newToken) (w\<lparr>chan := rest\<rparr>)))"

text \<open>
  How one pass through the body of a loop ends: \<open>Next\<close> goes on to the next
  iteration, \<open>Break\<close> leaves the loop, \<open>Exit\<close> returns from the function and
  \<open>Hang\<close> is blocked in a request that the script has no answer for. Each carries
  the variables of the loop: \<^verbatim>\<open>token\<close> and \<^verbatim>\<open>consecutive403Count\<close> in
  \<^verbatim>\<open>mainLoop\<close>, \<^verbatim>\<open>token\<close> in \<^verbatim>\<open>pollUnregisteredTargets\<close>. A loop ends the
  way its last pass did.
\<close>

datatype ('s, 'w) control =
    Next (ctl_vars: 's) (ctl_world: 'w)
  | Break (ctl_vars: 's) (ctl_world: 'w)
  | Exit (ctl_vars: 's) (ctl_world: 'w)
  | Hang (ctl_vars: 's) (ctl_world: 'w)

text \<open>The body of \<^verbatim>\<open>for _, task := range tasks\<close>.\<close>

definition claimBody :: "string \<Rightarrow> nat \<Rightarrow> Task \<Rightarrow> 'b world \<Rightarrow> (string \<times> nat, 'b world) control" where
  "claimBody token consecutive403Count task w =
     (case postClaimTask token task w of
        Blocked w' \<Rightarrow> Hang (token, consecutive403Count) w'
      | Return err w' \<Rightarrow>
          (case err of
             Some e \<Rightarrow>
               if Contains e ''403'' then
                 (let n = consecutive403Count + 1;
                      w1 = emit (Log (''Got 403. Current consecutive403Count = '' @ itoa (int n))) w'
                  in if n \<ge> 5 then
                       Exit (token, n)
                         (emit (Log ''Received 403 five times in a row. Stopping the bot.'') w1)
                     else Next (token, n) w1)
               else if Contains e ''401'' then
                 (let (newToken, w1) = refreshToken w'
                  in Break (newToken, 0) (emit (ChanSend newToken) w1))
               else Next (token, consecutive403Count) (emit (Log e) w')
           | None \<Rightarrow>
               Next (token, 0)
                 (emit (Sleep (5 * Second))
                   (emit (Println (''Claimed task '' @ ID task @ '' successfully.'')) w'))))"

fun claimTasks :: "string \<Rightarrow> nat \<Rightarrow> Task list \<Rightarrow> 'b world \<Rightarrow> (string \<times> nat, 'b world) control" where
  "claimTasks token n [] w = Next (token, n) w"
| "claimTasks token n (task # tasks) w =
     (case claimBody token n task w of
        Next (token', n') w' \<Rightarrow> claimTasks token' n' tasks w'
      | Break s w' \<Rightarrow> Break s w'
      | Exit s w' \<Rightarrow> Exit s w'
      | Hang s w' \<Rightarrow> Hang s w')"

text \<open>
  The body of the outer \<^verbatim>\<open>for\<close> of \<^verbatim>\<open>mainLoop\<close>. After the inner loop, whether
  it ran to the end of the tasks or was left by \<^verbatim>\<open>break\<close>, the body sleeps and the
  next iteration follows.
\<close>

definition mainLoop_body :: "string \<Rightarrow> nat \<Rightarrow> bool \<Rightarrow> Task list world \<Rightarrow> (string \<times> nat, Task list world) control" where
  "mainLoop_body token consecutive403Count verbose w =
     (let (token1, w1) = selectToken token w;
          w2 = (if verbose then emit (Log ''Checking for available missions...'') w1 else w1)
      in case getTasks token1 w2 of
           Blocked w3 \<Rightarrow> Hang (token1, consecutive403Count) w3
         | Return (Inl err) w3 \<Rightarrow>
             if Contains err ''401'' then
               (let (newToken, w4) = refreshToken w3
                in Next (newToken, 0) (emit (ChanSend newToken) w4))
             else Next (token1, consecutive403Count)
                    (emit (Sleep (15 * Second)) (emit (Log err) w3))
         | Return (Inr tasks) w3 \<Rightarrow>
             (case claimTasks token1 consecutive403Count tasks w3 of
                Next s w4 \<Rightarrow> Next s (emit (Sleep (15 * Second)) w4)
              | Break s w4 \<Rightarrow> Next s (emit (Sleep (15 * Second)) w4)
              | Exit s w4 \<Rightarrow> Exit s w4
              | Hang s w4 \<Rightarrow> Hang s w4))"

lemma http_selectToken: "selectToken token w = (token1, w1) \<Longrightarrow> http w1 = http w"
  by (auto simp: selectToken_def split: list.splits option.splits)

lemma http_refreshToken: "refreshToken w = (newToken, w1) \<Longrightarrow> http w1 = http w"
  by (auto simp: refreshToken_def Let_def)

lemma getTasks_Return_http:
  "getTasks token w = Return r w' \<Longrightarrow> length (http w') < length (http w)"
proof (induction token w rule: getTasks.induct)
  case (1 token w)
  from "1.prems" obtain resp w1 where d: "Do (GetTasksReq token) w = Return resp w1"
    by (subst (asm) getTasks.simps) (auto split: outcome.splits)
  then have h: "http w = resp # http w1" by (rule Do_Return_http)
  show ?case
  proof (cases resp)
    case (TransportError err)
    with "1.prems" d h show ?thesis
      by (subst (asm) getTasks.simps) auto
  next
    case (Response code ra body)
    show ?thesis
    proof (cases "code = 429")
      case True
      with "1.prems" d Response
      have "getTasks token (tasksBackoff ra w1) = Return r w'"
        by (subst (asm) getTasks.simps) auto
      with "1.IH" [OF d Response _ _ True] True
      have "length (http w') < length (http (tasksBackoff ra w1))" by simp
      with h show ?thesis by simp
    next
      case False
      with "1.prems" d h Response show ?thesis
        by (subst (asm) getTasks.simps) (auto split: sum.splits if_splits)
    qed
  qed
qed

lemma postClaimTask_Return_http:
  "postClaimTask token task w = Return err w' \<Longrightarrow> length (http w') < length (http w)"
  by (auto simp: postClaimTask_def split: outcome.splits response.splits if_splits
      dest!: Do_Return_http)

lemma claimBody_http:
  "claimBody token n task w = Next s w' \<or> claimBody token n task w = Break s w'
   \<Longrightarrow> length (http w') < length (http w)"
  by (auto simp: claimBody_def Let_def split: outcome.splits option.splits if_splits prod.splits
      dest!: postClaimTask_Return_http http_refreshToken)

lemma claimTasks_http:
  "claimTasks token n tasks w = Next s w' \<or> claimTasks token n tasks w = Break s w'
   \<Longrightarrow> length (http w') \<le> length (http w)"
proof (induction tasks arbitrary: token n w)
  case Nil
  then show ?case by simp
next
  case (Cons task tasks)
  show ?case
  proof (cases "claimBody token n task w")
    case (Next s1 w1)
    obtain t1 n1 where s1: "s1 = (t1, n1)" by (cases s1)
    with Next Cons.prems
    have "claimTasks t1 n1 tasks w1 = Next s w' \<or> claimTasks t1 n1 tasks w1 = Break s w'"
      by simp
    then have "length (http w') \<le> length (http w1)" by (rule Cons.IH)
    moreover from Next have "length (http w1) < length (http w)"
      using claimBody_http by blast
    ultimately show ?thesis by simp
  next
    case (Break s1 w1)
    with Cons.prems have "w' = w1" by simp
    with Break show ?thesis using claimBody_http [of token n task w s1 w1] by simp
  next
    case (Exit s1 w1)
    with Cons.prems show ?thesis by simp
  next
    case (Hang s1 w1)
    with Cons.prems show ?thesis by simp
  qed
qed

lemma mainLoop_body_http:
  assumes a: "mainLoop_body token n verbose w = Next s w'"
  shows "length (http w') < length (http w)"
proof -
  obtain token1 w1 where s: "selectToken token w = (token1, w1)" by force
  define w2 where "w2 = (if verbose then emit (Log ''Checking for available missions...'') w1 else w1)"
  have h2: "http w2 = http w" using http_selectToken [OF s] by (simp add: w2_def)
  from a s obtain r w3 where g: "getTasks token1 w2 = Return r w3"
    by (auto simp: mainLoop_body_def w2_def split: outcome.splits)
  have h3: "length (http w3) < length (http w)"
    using getTasks_Return_http [OF g] h2 by simp
  show ?thesis
  proof (cases r)
    case (Inl err)
    with a s g h3 show ?thesis
      by (auto simp: mainLoop_body_def w2_def split: if_splits prod.splits
          dest!: http_refreshToken)
  next
    case (Inr tasks)
    with a s g obtain s4 w4 where
      c: "claimTasks token1 n tasks w3 = Next s4 w4 \<or> claimTasks token1 n tasks w3 = Break s4 w4"
      and w': "w' = emit (Sleep (15 * Second)) w4"
      by (auto simp: mainLoop_body_def w2_def split: control.splits)
    from claimTasks_http [OF c] h3 w' show ?thesis by simp
  qed
qed

text \<open>
  The outer \<^verbatim>\<open>for\<close> of \<^verbatim>\<open>mainLoop\<close>, from given values of its variables. It has
  no condition: it ends when a pass returns (or is blocked for good).
\<close>

function mainLoop_for :: "string \<Rightarrow> nat \<Rightarrow> bool \<Rightarrow> Task list world \<Rightarrow> (string \<times> nat, Task list world) control" where
  "mainLoop_for token consecutive403Count verbose w =
     (case mainLoop_body token consecutive403Count verbose w of
        Next (token', n') w' \<Rightarrow> mainLoop_for token' n' verbose w'
      | Break s w' \<Rightarrow> Break s w'
      | Exit s w' \<Rightarrow> Exit s w'
      | Hang s w' \<Rightarrow> Hang s w')"
  by pat_completeness auto
termination
  by (relation "measure (\<lambda>(token, n, verbose, w). length (http w))")
    (auto dest: mainLoop_body_http)

declare mainLoop_for.simps [simp del]

text \<open>
  \<^verbatim>\<open>mainLoop\<close>: \<^verbatim>\<open>consecutive403Count\<close> starts at zero. The function returns when
  its loop is left; a run over a finite script that does not return ends blocked.
\<close>

definition mainLoop :: "string \<Rightarrow> bool \<Rightarrow> Task list world \<Rightarrow> (unit, Task list world) outcome" where
  "mainLoop token verbose w =
     (case mainLoop_for token 0 verbose w of
        Hang s w' \<Rightarrow> Blocked w'
      | Next s w' \<Rightarrow> Return () w'
      | Break s w' \<Rightarrow> Return () w'
      | Exit s w' \<Rightarrow> Return () w')"

subsection \<open>getUnregisteredTargets\<close>

function getUnregisteredTargets :: "string \<Rightarrow> Target list world \<Rightarrow> (string + Target list, Target list world) outcome" where
  "getUnregisteredTargets token w =
     (case Do (GetTargetsReq token) w of
        Blocked w' \<Rightarrow> Blocked w'
      | Return resp w' \<Rightarrow>
          (case resp of
             TransportError err \<Rightarrow> Return (Inl err) w'
           | Response StatusCode retryAfter body \<Rightarrow>
               if StatusCode = 200 then
                 (case body of
                    Inl err \<Rightarrow> Return (Inl err) w'
                  | Inr targets \<Rightarrow> Return (Inr targets) w')
               else if StatusCode = 401 then Return (Inl ''unauthorized (401)'') w'
               else if StatusCode = 429 then
                 getUnregisteredTargets token
                   (emit (Sleep (30 * Second))
                     (emit (Println ''Got 429 Too Many Requests on targets. Sleeping 30 seconds.'') w'))
               else Return (Inl (''failed to retrieve unregistered targets, status code: '' @
                                 itoa (int StatusCode))) w'))"
  by pat_completeness auto
termination
  by (relation "measure (\<lambda>(token, w). length (http w))") (auto dest: Do_Return_http)

declare getUnregisteredTargets.simps [simp del]

subsection \<open>signupTarget\<close>

function signupTarget :: "string \<Rightarrow> string \<Rightarrow> 'b world \<Rightarrow> (string option, 'b world) outcome" where
  "signupTarget token slug w =
     (case Do (SignupReq token slug) w of
        Blocked w' \<Rightarrow> Blocked w'
      | Return resp w' \<Rightarrow>
          (case resp of
             TransportError err \<Rightarrow> Return (Some err) w'
           | Response StatusCode retryAfter body \<Rightarrow>
               if StatusCode = 200 then
                 Return None (emit (Println (''Signed up for target '' @ slug @ '' successfully.'')) w')
               else if StatusCode = 401 then Return (Some ''unauthorized (401)'') w'
               else if StatusCode = 429 then
                 signupTarget token slug
                   (emit (Sleep (30 * Second))
                     (emit (Println ''Got 429 Too Many Requests on signup. Sleeping 30 seconds.'') w'))
               else Return (Some (''failed to sign up for target '' @ slug @ '', status code: '' @
                                  itoa (int StatusCode))) w'))"
  by pat_completeness auto
termination
  by (relation "measure (\<lambda>(token, slug, w). length (http w))") (auto dest: Do_Return_http)

declare signupTarget.simps [simp del]

subsection \<open>pollUnregisteredTargets\<close>

text \<open>
  \<^verbatim>\<open>knownSlugs.LoadOrStore(key, value)\<close>: the value already stored for the key and
  \<open>True\<close>, or else the given value and \<open>False\<close> after storing it.
\<close>

definition LoadOrStore :: "string \<Rightarrow> bool \<Rightarrow> 'b world \<Rightarrow> (bool \<times> bool) \<times> 'b world" where
  "LoadOrStore key val w =
     (case knownSlugs w key of
        Some actual \<Rightarrow> ((actual, True), w)
      | None \<Rightarrow> ((val, False), w\<lparr>knownSlugs := (knownSlugs w)(key \<mapsto> val)\<rparr>))"

text \<open>The body of \<^verbatim>\<open>for _, t := range targets\<close>.\<close>

definition targetBody :: "string \<Rightarrow> Target \<Rightarrow> 'b world \<Rightarrow> (string, 'b world) control" where
  "targetBody token t w =
     (let ((actual, loaded), w1) = LoadOrStore (Slug t) True w
      in if \<not> loaded then
           (case signupTarget token (Slug t) (emit (SignupCall (Slug t)) w1) of
              Blocked w2 \<Rightarrow> Hang token w2
            | Return err w2 \<Rightarrow>
                (case err of
                   Some e \<Rightarrow> Next token (emit (Log e) w2)
                 | None \<Rightarrow> Next token w2))
         else Next token w1)"

fun signupTargets :: "string \<Rightarrow> Target list \<Rightarrow> 'b world \<Rightarrow> (string, 'b world) control" where
  "signupTargets token [] w = Next token w"
| "signupTargets token (t # targets) w =
     (case targetBody token t w of
        Next token' w' \<Rightarrow> signupTargets token' targets w'
      | Break s w' \<Rightarrow> Break s w'
      | Exit s w' \<Rightarrow> Exit s w'
      | Hang s w' \<Rightarrow> Hang s w')"

text \<open>The body of the outer \<^verbatim>\<open>for\<close> of \<^verbatim>\<open>pollUnregisteredTargets\<close>.\<close>

definition pollUnregisteredTargets_body :: "string \<Rightarrow> bool \<Rightarrow> Target list world \<Rightarrow> (string, Target list world) control" where
  "pollUnregisteredTargets_body token verbose w =
     (let (token1, w1) = selectToken token w;
          w2 = (if verbose then emit (Log ''Checking for unregistered targets...'') w1 else w1)
      in case getUnregisteredTargets token1 w2 of
           Blocked w3 \<Rightarrow> Hang token1 w3
         | Return (Inl err) w3 \<Rightarrow>
             if Contains err ''401'' then
               (let (newToken, w4) = refreshToken w3
                in Next newToken (emit (ChanSend newToken) w4))
             else Next token1 (emit (Sleep (5 * Minute)) (emit (Log err) w3))
         | Return (Inr targets) w3 \<Rightarrow>
             (case signupTargets token1 targets w3 of
                Next s w4 \<Rightarrow> Next s (emit (Sleep (5 * Minute)) w4)
              | Break s w4 \<Rightarrow> Next s (emit (Sleep (5 * Minute)) w4)
              | Exit s w4 \<Rightarrow> Exit s w4
              | Hang s w4 \<Rightarrow> Hang s w4))"

lemma getUnregisteredTargets_Return_http:
  "getUnregisteredTargets token w = Return r w' \<Longrightarrow> length (http w') < length (http w)"
proof (induction token w rule: getUnregisteredTargets.induct)
  case (1 token w)
  from "1.prems" obtain resp w1 where d: "Do (GetTargetsReq token) w = Return resp w1"
    by (subst (asm) getUnregisteredTargets.simps) (auto split: outcome.splits)
  then have h: "http w = resp # http w1" by (rule Do_Return_http)
  show ?case
  proof (cases resp)
    case (TransportError err)
    with "1.prems" d h show ?thesis
      by (subst (asm) getUnregisteredTargets.simps) auto
  next
    case (Response code ra body)
    show ?thesis
    proof (cases "code = 429")
      case True
      with "1.prems" d Response
      have "getUnregisteredTargets token
              (emit (Sleep (30 * Second))
                (emit (Println ''Got 429 Too Many Requests on targets. Sleeping 30 seconds.'') w1))
            = Return r w'"
        by (subst (asm) getUnregisteredTargets.simps) auto
      with "1.IH" [OF d Response _ _ True] True
      have "length (http w') < length (http w1)" by simp
      with h show ?thesis by simp
    next
      case False
      with "1.prems" d h Response show ?thesis
        by (subst (asm) getUnregisteredTargets.simps) (auto split: sum.splits if_splits)
    qed
  qed
qed

lemma signupTarget_Return_http:
  "signupTarget token slug w = Return r w' \<Longrightarrow> length (http w') < length (http w)"
proof (induction token slug w rule: signupTarget.induct)
  case (1 token slug w)
  from "1.prems" obtain resp w1 where d: "Do (SignupReq token slug) w = Return resp w1"
    by (subst (asm) signupTarget.simps) (auto split: outcome.splits)
  then have h: "http w = resp # http w1" by (rule Do_Return_http)
  show ?case
  proof (cases resp)
    case (TransportError err)
    with "1.prems" d h show ?thesis
      by (subst (asm) signupTarget.simps) auto
  next
    case (Response code ra body)
    show ?thesis
    proof (cases "code = 429")
      case True
      with "1.prems" d Response
      have "signupTarget token slug
              (emit (Sleep (30 * Second))
                (emit (Println ''Got 429 Too Many Requests on signup. Sleeping 30 seconds.'') w1))
            = Return r w'"
        by (subst (asm) signupTarget.simps) auto
      with "1.IH" [OF d Response _ _ True] True
      have "length (http w') < length (http w1)" by simp
      with h show ?thesis by simp
    next
      case False
      with "1.prems" d h Response show ?thesis
        by (subst (asm) signupTarget.simps) (auto split: if_splits)
    qed
  qed
qed

lemma http_LoadOrStore: "LoadOrStore key val w = (r, w1) \<Longrightarrow> http w1 = http w"
  by (auto simp: LoadOrStore_def split: option.splits)

lemma targetBody_http:
  "targetBody token t w = Next s w' \<or> targetBody token t w = Break s w'
   \<Longrightarrow> length (http w') \<le> length (http w)"
  by (auto simp: targetBody_def split: prod.splits if_splits outcome.splits option.splits
      dest!: http_LoadOrStore signupTarget_Return_http)

lemma signupTargets_http:
  "signupTargets token targets w = Next s w' \<or> signupTargets token targets w = Break s w'
   \<Longrightarrow> length (http w') \<le> length (http w)"
proof (induction targets arbitrary: token w)
  case Nil
  then show ?case by simp
next
  case (Cons t targets)
  show ?case
  proof (cases "targetBody token t w")
    case (Next token1 w1)
    with Cons.prems
    have "signupTargets token1 targets w1 = Next s w' \<or> signupTargets token1 targets w1 = Break s w'"
      by simp
    then have "length (http w') \<le> length (http w1)" by (rule Cons.IH)
    moreover from Next have "length (http w1) \<le> length (http w)"
      using targetBody_http by blast
    ultimately show ?thesis by simp
  next
    case (Break s1 w1)
    with Cons.prems have "w' = w1" by simp
    with Break show ?thesis using targetBody_http [of token t w s1 w1] by simp
  next
    case (Exit s1 w1)
    with Cons.prems show ?thesis by simp
  next
    case (Hang s1 w1)
    with Cons.prems show ?thesis by simp
  qed
qed

lemma pollUnregisteredTargets_body_http:
  assumes a: "pollUnregisteredTargets_body token verbose w = Next s w'"
  shows "length (http w') < length (http w)"
proof -
  obtain token1 w1 where s: "selectToken token w = (token1, w1)" by force
  define w2 where "w2 = (if verbose then emit (Log ''Checking for unregistered targets...'') w1 else w1)"
  have h2: "http w2 = http w" using http_selectToken [OF s] by (simp add: w2_def)
  from a s obtain r w3 where g: "getUnregisteredTargets token1 w2 = Return r w3"
    by (auto simp: pollUnregisteredTargets_body_def w2_def split: outcome.splits)
  have h3: "length (http w3) < length (http w)"
    using getUnregisteredTargets_Return_http [OF g] h2 by simp
  show ?thesis
  proof (cases r)
    case (Inl err)
    with a s g h3 show ?thesis
      by (auto simp: pollUnregisteredTargets_body_def w2_def split: if_splits prod.splits
          dest!: http_refreshToken)
  next
    case (Inr targets)
    with a s g obtain s4 w4 where
      c: "signupTargets token1 targets w3 = Next s4 w4 \<or> signupTargets token1 targets w3 = Break s4 w4"
      and w': "w' = emit (Sleep (5 * Minute)) w4"
      by (auto simp: pollUnregisteredTargets_body_def w2_def split: control.splits)
    from signupTargets_http [OF c] h3 w' show ?thesis by simp
  qed
qed

function pollUnregisteredTargets_for :: "string \<Rightarrow> bool \<Rightarrow> Target list world \<Rightarrow> (string, Target list world) control" where
  "pollUnregisteredTargets_for token verbose w =
     (case pollUnregisteredTargets_body token verbose w of
        Next token' w' \<Rightarrow> pollUnregisteredTargets_for token' verbose w'
      | Break s w' \<Rightarrow> Break s w'
      | Exit s w' \<Rightarrow> Exit s w'
      | Hang s w' \<Rightarrow> Hang s w')"
  by pat_completeness auto
termination
  by (relation "measure (\<lambda>(token, verbose, w). length (http w))")
    (auto dest: pollUnregisteredTargets_body_http)

declare pollUnregisteredTargets_for.simps [simp del]

definition pollUnregisteredTargets :: "string \<Rightarrow> bool \<Rightarrow> Target list world \<Rightarrow> (unit, Target list world) outcome" where
  "pollUnregisteredTargets token verbose w =
     (case pollUnregisteredTargets_for token verbose w of
        Hang s w' \<Rightarrow> Blocked w'
      | Next s w' \<Rightarrow> Return () w'
      | Break s w' \<Rightarrow> Return () w'
      | Exit s w' \<Rightarrow> Return () w')"

subsection \<open>main\<close>

text \<open>
  \<^verbatim>\<open>main\<close> defines the flags \<^verbatim>\<open>-t\<close> (a string, default empty) and \<^verbatim>\<open>-v\<close> (a
  boolean, default false) and calls \<^verbatim>\<open>flag.Parse\<close>, which reads the command line
  \<^verbatim>\<open>os.Args[1:]\<close> and may itself leave the process: the package \<^verbatim>\<open>flag\<close> parses
  the command line with the error handling \<^verbatim>\<open>ExitOnError\<close>. What \<^verbatim>\<open>main\<close> does
  is the list of its actions: printing the message of a parsing error, printing the
  usage message, leaving the process with a status, starting
  \<^verbatim>\<open>pollUnregisteredTargets\<close> as a goroutine over a fresh \<^verbatim>\<open>sync.Map\<close>, and
  calling \<^verbatim>\<open>mainLoop\<close>.
\<close>

datatype flagError =
    BadSyntax string
  | NotDefined string
  | InvalidBoolean string string
  | NeedsArgument string

datatype action =
    FlagError flagError
  | Usage
  | OsExit int
  | Go_pollUnregisteredTargets string "string \<rightharpoonup> bool" bool
  | Call_mainLoop string bool

text \<open>The values of the two flags, and \<^verbatim>\<open>strconv.ParseBool\<close>, which sets a boolean flag.\<close>

record flagSet =
  tokenFlag :: string
  verboseFlag :: bool

definition ParseBool :: "string \<Rightarrow> bool option" where
  "ParseBool str =
     (if str \<in> set [''1'', ''t'', ''T'', ''true'', ''TRUE'', ''True''] then Some True
      else if str \<in> set [''0'', ''f'', ''F'', ''false'', ''FALSE'', ''False''] then Some False
      else None)"

text \<open>
  \<^verbatim>\<open>FlagSet.parseOne\<close> looks at the first argument. \<open>Stop\<close>: it is not a flag (or
  it is \<^verbatim>\<open>--\<close>), parsing is over. \<open>Seen\<close>: a flag was set, with the arguments
  that remain. \<open>ErrHelp\<close>: the flag is \<^verbatim>\<open>-h\<close> or \<^verbatim>\<open>-help\<close>, which the
  program does not define; the usage message has been printed. \<open>Failf\<close>: an error,
  whose message and the usage message have been printed. A flag has one or two
  dashes; its value follows the first \<^verbatim>\<open>=\<close> after the first character of its name, or
  is the next argument (a boolean flag takes a value with \<^verbatim>\<open>=\<close> only).
\<close>

datatype parseStep =
    Seen flagSet "string list"
  | Stop
  | ErrHelp
  | Failf flagError

definition parseOne :: "flagSet \<Rightarrow> string list \<Rightarrow> parseStep" where
  "parseOne f args =
     (case args of
        [] \<Rightarrow> Stop
      | s # args' \<Rightarrow>
          if length s < 2 \<or> s ! 0 \<noteq> CHR ''-'' then Stop
          else if s ! 1 = CHR ''-'' \<and> length s = 2 then Stop
          else
            (let numMinuses = (if s ! 1 = CHR ''-'' then 2 else 1);
                 name = drop numMinuses s
             in if length name = 0 \<or> name ! 0 = CHR ''-'' \<or> name ! 0 = CHR ''='' then
                  Failf (BadSyntax s)
                else
                  (let hasValue = CHR ''='' \<in> set (tl name);
                       value = tl (dropWhile (\<lambda>c. c \<noteq> CHR ''='') (tl name));
                       name = hd name # takeWhile (\<lambda>c. c \<noteq> CHR ''='') (tl name)
                   in if name = ''t'' then
                        (if hasValue then Seen (f\<lparr>tokenFlag := value\<rparr>) args'
                         else
                           (case args' of
                              [] \<Rightarrow> Failf (NeedsArgument name)
                            | value # args'' \<Rightarrow> Seen (f\<lparr>tokenFlag := value\<rparr>) args''))
                      else if name = ''v'' then
                        (if hasValue then
                           (case ParseBool value of
                              None \<Rightarrow> Failf (InvalidBoolean value name)
                            | Some b \<Rightarrow> Seen (f\<lparr>verboseFlag := b\<rparr>) args')
                         else Seen (f\<lparr>verboseFlag := True\<rparr>) args')
                      else if name = ''help'' \<or> name = ''h'' then ErrHelp
                      else Failf (NotDefined name))))"

lemma parseOne_Seen_length:
  "parseOne f args = Seen f' args' \<Longrightarrow> length args' < length args"
  by (auto simp: parseOne_def Let_def split: list.splits if_splits option.splits)

text \<open>
  \<^verbatim>\<open>FlagSet.Parse\<close> under \<^verbatim>\<open>ExitOnError\<close>: flags are parsed one after the other;
  \<^verbatim>\<open>ErrHelp\<close> ends the process with status 0 (since Go 1.15) and any other error
  with status 2. The result is either the actions up to the exit, or the values of the
  flags.
\<close>

function flag_Parse_from :: "flagSet \<Rightarrow> string list \<Rightarrow> action list + flagSet" where
  "flag_Parse_from f args =
     (case parseOne f args of
        Seen f' args' \<Rightarrow> flag_Parse_from f' args'
      | Stop \<Rightarrow> Inr f
      | ErrHelp \<Rightarrow> Inl [Usage, OsExit 0]
      | Failf err \<Rightarrow> Inl [FlagError err, Usage, OsExit 2])"
  by pat_completeness auto
termination
  by (relation "measure (\<lambda>(f, args). length args)") (auto dest: parseOne_Seen_length)

declare flag_Parse_from.simps [simp del]

definition flag_Parse :: "string list \<Rightarrow> action list + flagSet" where
  "flag_Parse args = flag_Parse_from \<lparr>tokenFlag = [], verboseFlag = False\<rparr> args"

text \<open>\<^verbatim>\<open>main\<close>, run with the command line \<open>args\<close> (\<^verbatim>\<open>os.Args[1:]\<close>).\<close>

definition main :: "string list \<Rightarrow> action list" where
  "main args =
     (case flag_Parse args of
        Inl exited \<Rightarrow> exited
      | Inr f \<Rightarrow>
          if tokenFlag f = [] then [Usage, OsExit 1]
          else (let token = tokenFlag f;
                    verbose = verboseFlag f;
                    knownSlugs = Map.empty
                in [Go_pollUnregisteredTargets token knownSlugs verbose,
                    Call_mainLoop token verbose]))"

section \<open>Notions the properties are stated with\<close>

subsection \<open>Whitespace\<close>



subsection \<open>Actions of main and command lines\<close>

definition startsLoop :: "action \<Rightarrow> bool" where
  "startsLoop a =
     (case a of
        Go_pollUnregisteredTargets token m verbose \<Rightarrow> True
      | Call_mainLoop token verbose \<Rightarrow> True
      | FlagError err \<Rightarrow> False
      | Usage \<Rightarrow> False
      | OsExit status \<Rightarrow> False)"

text \<open>
  The options that the program defines, as they are given on a command line:
  \<^verbatim>\<open>-t tok\<close>, \<^verbatim>\<open>-t=tok\<close>, \<^verbatim>\<open>-v\<close>, \<^verbatim>\<open>-v=true\<close> and \<^verbatim>\<open>-v=false\<close>.
  \<open>commandLine gs\<close> is the command line that gives the options \<open>gs\<close> in
  this order; \<open>givenToken gs\<close> is the credential given last (\<open>None\<close> when
  \<^verbatim>\<open>-t\<close> is absent), \<open>verboseOf gs\<close> the verbosity given last (false when
  \<^verbatim>\<open>-v\<close> is absent).
\<close>

datatype given = Token string | TokenEq string | Verbose | VerboseEq bool

fun words :: "given \<Rightarrow> string list" where
  "words (Token tok) = [''-t'', tok]"
| "words (TokenEq tok) = [''-t='' @ tok]"
| "words Verbose = [''-v'']"
| "words (VerboseEq b) = [if b then ''-v=true'' else ''-v=false'']"

definition commandLine :: "given list \<Rightarrow> string list" where
  "commandLine gs = concat (map words gs)"

fun givenToken :: "given list \<Rightarrow> string option" where
  "givenToken [] = None"
| "givenToken (g # gs) =
     (case givenToken gs of
        Some tok \<Rightarrow> Some tok
      | None \<Rightarrow> (case g of Token tok \<Rightarrow> Some tok | TokenEq tok \<Rightarrow> Some tok | _ \<Rightarrow> None))"

fun givenVerbose :: "given list \<Rightarrow> bool option" where
  "givenVerbose [] = None"
| "givenVerbose (g # gs) =
     (case givenVerbose gs of
        Some b \<Rightarrow> Some b
      | None \<Rightarrow> (case g of Verbose \<Rightarrow> Some True | VerboseEq b \<Rightarrow> Some b | _ \<Rightarrow> None))"

definition verboseOf :: "given list \<Rightarrow> bool" where
  "verboseOf gs = (case givenVerbose gs of None \<Rightarrow> False | Some b \<Rightarrow> b)"

fun setGiven :: "flagSet \<Rightarrow> given \<Rightarrow> flagSet" where
  "setGiven f (Token tok) = f\<lparr>tokenFlag := tok\<rparr>"
| "setGiven f (TokenEq tok) = f\<lparr>tokenFlag := tok\<rparr>"
| "setGiven f Verbose = f\<lparr>verboseFlag := True\<rparr>"
| "setGiven f (VerboseEq b) = f\<lparr>verboseFlag := b\<rparr>"

subsection \<open>What the Mission Poller observes\<close>

text \<open>
  The outcome of a claim attempt as the platform gave it: created (201), forbidden
  (403), unauthorized (401), or anything else (412, another status, no response).
\<close>

datatype verdict = Claimed | Forbidden | AuthFailure | OtherFailure

definition claimVerdict :: "'b response \<Rightarrow> verdict" where
  "claimVerdict r =
     (case r of
        TransportError err \<Rightarrow> OtherFailure
      | Response StatusCode retryAfter body \<Rightarrow>
          if StatusCode = 201 then Claimed
          else if StatusCode = 403 then Forbidden
          else if StatusCode = 401 then AuthFailure
          else OtherFailure)"

definition fetchUnauthorized :: "'b response \<Rightarrow> bool" where
  "fetchUnauthorized r =
     (case r of
        TransportError err \<Rightarrow> False
      | Response StatusCode retryAfter body \<Rightarrow> StatusCode = 401)"

text \<open>
  \<^verbatim>\<open>mainLoop\<close> tells the outcomes apart by searching the error text for
  \<^verbatim>\<open>403\<close> and \<^verbatim>\<open>401\<close>. The text agrees with the status of the response when
  the response is plain: a status code of three digits (all that Go's HTTP/1 client
  accepts), and for an error without a status (transport, JSON decoding) a message in
  which the searched digits do not occur.
\<close>

definition plain :: "'b response \<Rightarrow> bool" where
  "plain r =
     (case r of
        TransportError err \<Rightarrow> \<not> Contains err ''403'' \<and> \<not> Contains err ''401''
      | Response StatusCode retryAfter body \<Rightarrow>
          StatusCode < 1000 \<and>
          (case body of Inl err \<Rightarrow> \<not> Contains err ''401'' | Inr x \<Rightarrow> True))"

text \<open>
  The sequence of outcomes in a trace: the verdict of every answered claim request,
  and \<open>AuthFailure\<close> for every task fetch answered 401.
\<close>

fun observation :: "'b event \<Rightarrow> verdict list" where
  "observation (Http (ClaimReq token task) r) = [claimVerdict r]"
| "observation (Http (GetTasksReq token) r) = (if fetchUnauthorized r then [AuthFailure] else [])"
| "observation e = []"

definition observations :: "'b event list \<Rightarrow> verdict list" where
  "observations tr = concat (map observation tr)"

text \<open>
  \<open>fiveForbidden breaking vs\<close>: somewhere in \<open>vs\<close> there are five forbidden
  outcomes with none of the \<open>breaking\<close> outcomes between them, that is, a stretch of
  \<open>vs\<close> that holds at least five \<open>Forbidden\<close> and no outcome of \<open>breaking\<close>.
\<close>

definition segments :: "'a list \<Rightarrow> 'a list list" where
  "segments xs = concat (map prefixes (suffixes xs))"

definition fiveForbidden :: "verdict list \<Rightarrow> verdict list \<Rightarrow> bool" where
  "fiveForbidden breaking vs =
     list_ex (\<lambda>seg. 5 \<le> count_list seg Forbidden \<and> set seg \<inter> set breaking = {}) (segments vs)"

text \<open>
  The counter that a sequence of outcomes leaves: a forbidden outcome adds one, a
  successful claim and an authorization failure set it to zero, any other failure
  leaves it. \<open>tripped vs\<close>: it reaches five somewhere along \<open>vs\<close>.
\<close>

fun streakStep :: "nat \<Rightarrow> verdict \<Rightarrow> nat" where
  "streakStep n Forbidden = n + 1"
| "streakStep n Claimed = 0"
| "streakStep n AuthFailure = 0"
| "streakStep n OtherFailure = n"

definition streak :: "verdict list \<Rightarrow> nat" where
  "streak vs = foldl streakStep 0 vs"

definition tripped :: "verdict list \<Rightarrow> bool" where
  "tripped vs = (\<exists>p. prefix p vs \<and> 5 \<le> streak p)"

text \<open>
  The invariant of the Mission Poller between two requests: the rest of the script is
  plain, \<^verbatim>\<open>consecutive403Count\<close> is the counter that the outcomes observed so far
  leave, and it has stayed below five. \<open>ctlOK\<close> is what a pass through a loop body
  establishes; \<open>silent\<close> relates two worlds between which nothing was requested.
\<close>

definition missionInv :: "nat \<Rightarrow> Task list world \<Rightarrow> bool" where
  "missionInv n w =
     (list_all plain (http w) \<and> streak (observations (trace w)) = n \<and> n < 5 \<and>
      \<not> tripped (observations (trace w)))"

definition ctlOK :: "(string \<times> nat, Task list world) control \<Rightarrow> bool" where
  "ctlOK c =
     (case c of
        Next s w \<Rightarrow> missionInv (snd s) w
      | Break s w \<Rightarrow> missionInv (snd s) w
      | Exit s w \<Rightarrow> tripped (observations (trace w)) \<and> snd s = 5
      | Hang s w \<Rightarrow> \<not> tripped (observations (trace w)))"

definition silent :: "'b world \<Rightarrow> 'b world \<Rightarrow> bool" where
  "silent w w' = (http w' = http w \<and> observations (trace w') = observations (trace w))"

subsection \<open>Passes of the outer loop\<close>

text \<open>
  \<open>mainLoop_passes k\<close>: the first \<open>k\<close> passes through the body of the outer
  \<^verbatim>\<open>for\<close> of \<^verbatim>\<open>mainLoop\<close>. The result is \<open>Next\<close>, with the variables and
  the world that the next pass starts from, when none of them left the loop.
\<close>

fun mainLoop_passes :: "nat \<Rightarrow> string \<Rightarrow> nat \<Rightarrow> bool \<Rightarrow> Task list world \<Rightarrow> (string \<times> nat, Task list world) control" where
  "mainLoop_passes 0 token n verbose w = Next (token, n) w"
| "mainLoop_passes (Suc k) token n verbose w =
     (case mainLoop_body token n verbose w of
        Next (token', n') w' \<Rightarrow> mainLoop_passes k token' n' verbose w'
      | Break s w' \<Rightarrow> Break s w'
      | Exit s w' \<Rightarrow> Exit s w'
      | Hang s w' \<Rightarrow> Hang s w')"

subsection \<open>Example tasks and scripts\<close>

definition task1 :: Task where
  "task1 = \<lparr>ID = ''m1'', CampaignUid = ''c1'', ListingUid = ''l1'', OrganizationUid = ''o1''\<rparr>"

definition task2 :: Task where
  "task2 = \<lparr>ID = ''m2'', CampaignUid = ''c1'', ListingUid = ''l1'', OrganizationUid = ''o1''\<rparr>"

definition status :: "nat \<Rightarrow> Task list response" where
  "status code = Response code [] (Inr [])"

definition script :: "'b response list \<Rightarrow> 'b world" where
  "script rs = \<lparr>http = rs, chan = [], stdin = [], knownSlugs = Map.empty, trace = []\<rparr>"

definition sixTasks :: "Task list" where
  "sixTasks = [task1, task2, task1, task2, task1, task2]"

definition acme :: Target where
  "acme = \<lparr>Slug = ''acme''\<rparr>"

subsection \<open>What the Target Poller does\<close>

text \<open>
  The slugs for which \<^verbatim>\<open>pollUnregisteredTargets\<close> called \<^verbatim>\<open>signupTarget\<close>, and
  the slugs for which a registration request was issued (answered or not), in the order
  of the trace.
\<close>

fun signupCall :: "'b event \<Rightarrow> string list" where
  "signupCall (SignupCall slug) = [slug]"
| "signupCall e = []"

definition signupCalls :: "'b event list \<Rightarrow> string list" where
  "signupCalls tr = concat (map signupCall tr)"

fun signupAttempt :: "'b event \<Rightarrow> string list" where
  "signupAttempt (Http (SignupReq token slug) r) = [slug]"
| "signupAttempt (HttpPending (SignupReq token slug)) = [slug]"
| "signupAttempt e = []"

definition signupAttempts :: "'b event list \<Rightarrow> string list" where
  "signupAttempts tr = concat (map signupAttempt tr)"

text \<open>
  The invariant of the Target Poller: no slug was registered twice, every registered
  slug is in the Known-Slugs Set, and every registration request belongs to a call.
  \<open>quiet\<close> relates two worlds between which the set and the registrations stay
  as they are, \<open>signupOnly slug\<close> two worlds between which only registration
  requests for \<open>slug\<close> were issued.
\<close>

definition pollerInv :: "'b world \<Rightarrow> bool" where
  "pollerInv w =
     (distinct (signupCalls (trace w)) \<and>
      set (signupCalls (trace w)) \<subseteq> dom (knownSlugs w) \<and>
      set (signupAttempts (trace w)) \<subseteq> set (signupCalls (trace w)))"

definition quiet :: "'b world \<Rightarrow> 'b world \<Rightarrow> bool" where
  "quiet w w' =
     (knownSlugs w' = knownSlugs w \<and>
      signupCalls (trace w') = signupCalls (trace w) \<and>
      signupAttempts (trace w') = signupAttempts (trace w))"

definition signupOnly :: "string \<Rightarrow> 'b world \<Rightarrow> 'b world \<Rightarrow> bool" where
  "signupOnly slug w w' =
     (knownSlugs w' = knownSlugs w \<and>
      signupCalls (trace w') = signupCalls (trace w) \<and>
      set (signupAttempts (trace w')) \<subseteq> insert slug (set (signupAttempts (trace w))))"

subsection \<open>Example targets and runs\<close>

definition slugA :: Target where
  "slugA = \<lparr>Slug = ''a''\<rparr>"

definition slugB :: Target where
  "slugB = \<lparr>Slug = ''b''\<rparr>"

definition slugC :: Target where
  "slugC = \<lparr>Slug = ''c''\<rparr>"

definition twoCycles :: "Target list world" where
  "twoCycles =
     script [Response 200 [] (Inr [slugA, slugB]), Response 200 [] (Inr []), Response 200 [] (Inr []),
             Response 200 [] (Inr [slugA, slugB, slugC]), Response 200 [] (Inr [])]"

definition failedSignup :: "Target list world" where
  "failedSignup =
     script [Response 200 [] (Inr [acme]), Response 401 [] (Inr []),
             Response 200 [] (Inr [acme]), Response 200 [] (Inr [acme])]"

definition fiveInARow :: "Task list world" where
  "fiveInARow =
     script [Response 200 [] (Inr sixTasks), status 403, status 403, status 403, status 403,
             status 403, status 201, Response 200 [] (Inr [])]"

definition refreshedStreak :: "Task list world" where
  "refreshedStreak =
     \<lparr>http = [Response 200 [] (Inr [task1, task2, task1, task2, task1]),
              status 403, status 403, status 403, status 403, status 401,
              Response 200 [] (Inr [task1]), status 403],
      chan = [], stdin = [''fresh\<newline>''], knownSlugs = Map.empty, trace = []\<rparr>"

section \<open>Auxiliary lemmas\<close>

subsection \<open>Trimming\<close>
















subsection \<open>Error texts and status codes\<close>

lemma digit_cases:
  "d < 10 \<Longrightarrow> d = 0 \<or> d = 1 \<or> d = 2 \<or> d = 3 \<or> d = 4 \<or> d = 5 \<or> d = 6 \<or> d = 7 \<or> d = 8 \<or> (d::nat) = 9"
  by arith

lemma digit_eq_0: "d < 10 \<Longrightarrow> (CHR ''0'' = digit d) = (d = 0)"
  by (drule digit_cases) (elim disjE; simp add: digit_def)

lemma digit_eq_1: "d < 10 \<Longrightarrow> (CHR ''1'' = digit d) = (d = 1)"
  by (drule digit_cases) (elim disjE; simp add: digit_def)

lemma digit_eq_3: "d < 10 \<Longrightarrow> (CHR ''3'' = digit d) = (d = 3)"
  by (drule digit_cases) (elim disjE; simp add: digit_def)

lemma digit_eq_4: "d < 10 \<Longrightarrow> (CHR ''4'' = digit d) = (d = 4)"
  by (drule digit_cases) (elim disjE; simp add: digit_def)

lemmas digit_eq = digit_eq_0 digit_eq_1 digit_eq_3 digit_eq_4

lemma itoa_nat_lt10: "n < 10 \<Longrightarrow> itoa_nat n = [digit n]"
  by (subst itoa_nat.simps) simp

lemma itoa_nat_lt100: "10 \<le> n \<Longrightarrow> n < 100 \<Longrightarrow> itoa_nat n = [digit (n div 10), digit (n mod 10)]"
  by (subst itoa_nat.simps) (simp add: itoa_nat_lt10)

lemma itoa_nat_lt1000:
  "100 \<le> n \<Longrightarrow> n < 1000 \<Longrightarrow> itoa_nat n = [digit (n div 100), digit (n div 10 mod 10), digit (n mod 10)]"
proof -
  assume a: "100 \<le> n" "n < 1000"
  then have "10 \<le> n div 10" "n div 10 < 100" by auto
  then have "itoa_nat (n div 10) = [digit (n div 10 div 10), digit (n div 10 mod 10)]"
    by (rule itoa_nat_lt100)
  moreover have "n div 10 div 10 = n div 100" by (simp add: div_mult2_eq)
  ultimately show ?thesis using a by (subst itoa_nat.simps) simp
qed

lemma decomp3: "(n::nat) = 10 * (10 * (n div 100) + n div 10 mod 10) + n mod 10"
proof -
  have a: "10 * (n div 10 div 10) + n div 10 mod 10 = n div 10" by (rule mult_div_mod_eq)
  have b: "10 * (n div 10) + n mod 10 = n" by (rule mult_div_mod_eq)
  have c: "n div 10 div 10 = n div 100" by (simp add: div_mult2_eq)
  from a c have "10 * (n div 100) + n div 10 mod 10 = n div 10" by simp
  with b show ?thesis by simp
qed

lemma digits_403: "(n div 100 = 4 \<and> n div 10 mod 10 = 0 \<and> n mod 10 = 3) = ((n::nat) = 403)"
proof
  assume "n div 100 = 4 \<and> n div 10 mod 10 = 0 \<and> n mod 10 = 3"
  with decomp3 [of n] show "n = 403" by simp
next
  assume "n = 403"
  then show "n div 100 = 4 \<and> n div 10 mod 10 = 0 \<and> n mod 10 = 3" by simp
qed

lemma digits_401: "(n div 100 = 4 \<and> n div 10 mod 10 = 0 \<and> n mod 10 = 1) = ((n::nat) = 401)"
proof
  assume "n div 100 = 4 \<and> n div 10 mod 10 = 0 \<and> n mod 10 = 1"
  with decomp3 [of n] show "n = 401" by simp
next
  assume "n = 401"
  then show "n div 100 = 4 \<and> n div 10 mod 10 = 0 \<and> n mod 10 = 1" by simp
qed

lemma Contains_itoa_403: "n < 1000 \<Longrightarrow> Contains (itoa_nat n) ''403'' = (n = 403)"
proof -
  assume n: "n < 1000"
  consider "n < 10" | "10 \<le> n" "n < 100" | "100 \<le> n" by linarith
  then show ?thesis
  proof cases
    case 1
    then show ?thesis by (simp add: itoa_nat_lt10)
  next
    case 2
    then show ?thesis by (simp add: itoa_nat_lt100)
  next
    case 3
    have d: "n div 100 < 10" "n div 10 mod 10 < 10" "n mod 10 < 10" using n by auto
    have "Contains (itoa_nat n) ''403'' = (n div 100 = 4 \<and> n div 10 mod 10 = 0 \<and> n mod 10 = 3)"
      using 3 n d by (simp add: itoa_nat_lt1000 digit_eq)
    then show ?thesis using digits_403 [of n] by simp
  qed
qed

lemma Contains_itoa_401: "n < 1000 \<Longrightarrow> Contains (itoa_nat n) ''401'' = (n = 401)"
proof -
  assume n: "n < 1000"
  consider "n < 10" | "10 \<le> n" "n < 100" | "100 \<le> n" by linarith
  then show ?thesis
  proof cases
    case 1
    then show ?thesis by (simp add: itoa_nat_lt10)
  next
    case 2
    then show ?thesis by (simp add: itoa_nat_lt100)
  next
    case 3
    have d: "n div 100 < 10" "n div 10 mod 10 < 10" "n mod 10 < 10" using n by auto
    have "Contains (itoa_nat n) ''401'' = (n div 100 = 4 \<and> n div 10 mod 10 = 0 \<and> n mod 10 = 1)"
      using 3 n d by (simp add: itoa_nat_lt1000 digit_eq)
    then show ?thesis using digits_401 [of n] by simp
  qed
qed

lemma itoa_int: "itoa (int n) = itoa_nat n"
  by (simp add: itoa_def)

lemma claim_text_403:
  "Contains (''Failed to claim task, status code: '' @ s) ''403'' = Contains s ''403''"
  by simp

lemma claim_text_401:
  "Contains (''Failed to claim task, status code: '' @ s) ''401'' = Contains s ''401''"
  by simp

lemma tasks_text_401:
  "Contains (''failed to retrieve tasks, status code: '' @ s) ''401'' = Contains s ''401''"
  by simp


subsection \<open>One claim attempt\<close>

lemma Do_Cons: "http w = r # rs \<Longrightarrow> Do req w = Return r (emit (Http req r) (w\<lparr>http := rs\<rparr>))"
  by (simp add: Do_def)

lemma Do_Nil: "http w = [] \<Longrightarrow> Do req w = Blocked (emit (HttpPending req) w)"
  by (simp add: Do_def)

lemma plain_claim_403:
  "plain r \<Longrightarrow> http w = r # rs \<Longrightarrow> postClaimTask token task w = Return (Some e) w'
   \<Longrightarrow> Contains e ''403'' = (claimVerdict r = Forbidden)"
  by (auto simp: postClaimTask_def Do_Cons plain_def claimVerdict_def itoa_int Contains_itoa_403
      split: response.splits if_splits)

lemma plain_claim_401:
  "plain r \<Longrightarrow> http w = r # rs \<Longrightarrow> postClaimTask token task w = Return (Some e) w'
   \<Longrightarrow> Contains e ''401'' = (claimVerdict r = AuthFailure)"
  by (auto simp: postClaimTask_def Do_Cons plain_def claimVerdict_def itoa_int Contains_itoa_401
      split: response.splits if_splits)

lemma postClaimTask_None:
  "http w = r # rs \<Longrightarrow> postClaimTask token task w = Return None w'
   \<Longrightarrow> claimVerdict r = Claimed"
  by (auto simp: postClaimTask_def Do_Cons claimVerdict_def split: response.splits if_splits)

lemma postClaimTask_Some:
  "http w = r # rs \<Longrightarrow> postClaimTask token task w = Return (Some e) w'
   \<Longrightarrow> claimVerdict r \<noteq> Claimed \<and> w' = emit (Http (ClaimReq token task) r) (w\<lparr>http := rs\<rparr>)"
  by (auto simp: postClaimTask_def Do_Cons claimVerdict_def split: response.splits if_splits)

lemma postClaimTask_Cons_Return:
  "http w = r # rs \<Longrightarrow> \<exists>err w'. postClaimTask token task w = Return err w'"
  by (auto simp: postClaimTask_def Do_Cons split: response.splits)


lemma claimBody_Claimed:
  assumes "http w = r # rs" "claimVerdict r = Claimed"
  shows "claimBody token n task w =
           Next (token, 0)
             (emit (Sleep (5 * Second))
               (emit (Println (''Claimed task '' @ ID task @ '' successfully.''))
                 (emit (Println ''Mission claimed successfully.'')
                   (emit (Http (ClaimReq token task) r) (w\<lparr>http := rs\<rparr>)))))"
  using assms
  by (auto simp: claimBody_def postClaimTask_def Do_Cons claimVerdict_def
      split: response.splits if_splits)

lemma claimBody_Forbidden:
  assumes "http w = r # rs" "plain r" "claimVerdict r = Forbidden"
  shows "claimBody token n task w =
           (if 5 \<le> n + 1 then
              Exit (token, n + 1)
                (emit (Log ''Received 403 five times in a row. Stopping the bot.'')
                  (emit (Log (''Got 403. Current consecutive403Count = '' @ itoa (int (n + 1))))
                    (emit (Http (ClaimReq token task) r) (w\<lparr>http := rs\<rparr>))))
            else
              Next (token, n + 1)
                (emit (Log (''Got 403. Current consecutive403Count = '' @ itoa (int (n + 1))))
                  (emit (Http (ClaimReq token task) r) (w\<lparr>http := rs\<rparr>))))"
proof -
  from assms(1) obtain err w' where p: "postClaimTask token task w = Return err w'"
    using postClaimTask_Cons_Return by blast
  with assms obtain e where e: "err = Some e"
    using postClaimTask_None by (cases err) fastforce+
  with p assms have c: "Contains e ''403''" and w': "w' = emit (Http (ClaimReq token task) r) (w\<lparr>http := rs\<rparr>)"
    using plain_claim_403 postClaimTask_Some by blast+
  with p e show ?thesis by (simp add: claimBody_def Let_def)
qed

lemma claimBody_AuthFailure:
  assumes "http w = r # rs" "plain r" "claimVerdict r = AuthFailure"
  shows "claimBody token n task w =
           Break (fst (refreshToken (emit (Http (ClaimReq token task) r) (w\<lparr>http := rs\<rparr>))), 0)
             (emit (ChanSend (fst (refreshToken (emit (Http (ClaimReq token task) r) (w\<lparr>http := rs\<rparr>)))))
               (snd (refreshToken (emit (Http (ClaimReq token task) r) (w\<lparr>http := rs\<rparr>)))))"
proof -
  from assms(1) obtain err w' where p: "postClaimTask token task w = Return err w'"
    using postClaimTask_Cons_Return by blast
  with assms obtain e where e: "err = Some e"
    using postClaimTask_None by (cases err) fastforce+
  with p assms have c: "\<not> Contains e ''403''" "Contains e ''401''"
    and w': "w' = emit (Http (ClaimReq token task) r) (w\<lparr>http := rs\<rparr>)"
    using plain_claim_403 plain_claim_401 postClaimTask_Some by fastforce+
  with p e show ?thesis by (simp add: claimBody_def Let_def split: prod.splits)
qed

lemma claimBody_OtherFailure:
  assumes "http w = r # rs" "plain r" "claimVerdict r = OtherFailure"
  shows "\<exists>e. claimBody token n task w =
           Next (token, n) (emit (Log e) (emit (Http (ClaimReq token task) r) (w\<lparr>http := rs\<rparr>)))"
proof -
  from assms(1) obtain err w' where p: "postClaimTask token task w = Return err w'"
    using postClaimTask_Cons_Return by blast
  with assms obtain e where e: "err = Some e"
    using postClaimTask_None by (cases err) fastforce+
  with p assms have c: "\<not> Contains e ''403''" "\<not> Contains e ''401''"
    and w': "w' = emit (Http (ClaimReq token task) r) (w\<lparr>http := rs\<rparr>)"
    using plain_claim_403 plain_claim_401 postClaimTask_Some by fastforce+
  with p e have "claimBody token n task w =
      Next (token, n) (emit (Log e) (emit (Http (ClaimReq token task) r) (w\<lparr>http := rs\<rparr>)))"
    by (simp add: claimBody_def Let_def)
  then show ?thesis by blast
qed


lemma claimBody_403:
  assumes "http w = Response 403 retryAfter body # rs"
  shows "claimBody token n task w =
           (if 5 \<le> n + 1 then
              Exit (token, n + 1)
                (emit (Log ''Received 403 five times in a row. Stopping the bot.'')
                  (emit (Log (''Got 403. Current consecutive403Count = '' @ itoa (int (n + 1))))
                    (emit (Http (ClaimReq token task) (Response 403 retryAfter body)) (w\<lparr>http := rs\<rparr>))))
            else
              Next (token, n + 1)
                (emit (Log (''Got 403. Current consecutive403Count = '' @ itoa (int (n + 1))))
                  (emit (Http (ClaimReq token task) (Response 403 retryAfter body)) (w\<lparr>http := rs\<rparr>))))"
  using assms by (simp add: claimBody_def postClaimTask_def Do_Cons Let_def)

lemma claimTasks_append:
  "claimTasks token n (xs @ ys) w =
     (case claimTasks token n xs w of
        Next (token', n') w' \<Rightarrow> claimTasks token' n' ys w'
      | Break s w' \<Rightarrow> Break s w'
      | Exit s w' \<Rightarrow> Exit s w'
      | Hang s w' \<Rightarrow> Hang s w')"
proof (induction xs arbitrary: token n w)
  case Nil
  then show ?case by simp
next
  case (Cons x xs)
  then show ?case by (cases "claimBody token n x w") auto
qed



subsection \<open>Running the functions on a script\<close>

lemmas run_simps =
  mainLoop_def mainLoop_for.simps mainLoop_body_def getTasks.simps claimBody_def postClaimTask_def
  Do_def emit_def selectToken_def script_def status_def Let_def Second_def


subsection \<open>The invariant of the Target Poller\<close>

lemma signupCalls_append [simp]: "signupCalls (a @ b) = signupCalls a @ signupCalls b"
  by (simp add: signupCalls_def)

lemma signupAttempts_append [simp]: "signupAttempts (a @ b) = signupAttempts a @ signupAttempts b"
  by (simp add: signupAttempts_def)

lemma signupCalls_Nil [simp]: "signupCalls [] = []"
  by (simp add: signupCalls_def)

lemma signupCalls_Cons [simp]: "signupCalls (e # es) = signupCall e @ signupCalls es"
  by (simp add: signupCalls_def)

lemma signupAttempts_Nil [simp]: "signupAttempts [] = []"
  by (simp add: signupAttempts_def)

lemma signupAttempts_Cons [simp]: "signupAttempts (e # es) = signupAttempt e @ signupAttempts es"
  by (simp add: signupAttempts_def)

lemma quiet_refl: "quiet w w"
  by (simp add: quiet_def)

lemma quiet_trans: "quiet w w' \<Longrightarrow> quiet w' w'' \<Longrightarrow> quiet w w''"
  by (simp add: quiet_def)

lemma quiet_emit: "signupCall e = [] \<Longrightarrow> signupAttempt e = [] \<Longrightarrow> quiet w (emit e w)"
  by (simp add: quiet_def)

lemma quiet_Inv: "quiet w w' \<Longrightarrow> pollerInv w \<Longrightarrow> pollerInv w'"
  by (simp add: quiet_def pollerInv_def)

lemma quiet_selectToken: "selectToken token w = (token1, w1) \<Longrightarrow> quiet w w1"
  by (auto simp: selectToken_def quiet_def emit_def split: list.splits option.splits)

lemma quiet_refreshToken: "refreshToken w = (newToken, w1) \<Longrightarrow> quiet w w1"
  by (auto simp: refreshToken_def quiet_def emit_def Let_def)

lemma quiet_getUnregisteredTargets:
  "quiet w (out_world (getUnregisteredTargets token w))"
proof (induction token w rule: getUnregisteredTargets.induct)
  case (1 token w)
  show ?case
  proof (cases "http w")
    case Nil
    then show ?thesis
      by (subst getUnregisteredTargets.simps) (simp add: Do_Nil quiet_def)
  next
    case (Cons resp rest)
    let ?w1 = "emit (Http (GetTargetsReq token) resp) (w\<lparr>http := rest\<rparr>)"
    have d: "Do (GetTargetsReq token) w = Return resp ?w1" using Cons by (rule Do_Cons)
    have q1: "quiet w ?w1" by (simp add: quiet_def)
    show ?thesis
    proof (cases resp)
      case (TransportError err)
      with d q1 show ?thesis by (subst getUnregisteredTargets.simps) simp
    next
      case (Response code ra body)
      show ?thesis
      proof (cases "code = 429")
        case True
        let ?w2 = "emit (Sleep (30 * Second))
                     (emit (Println ''Got 429 Too Many Requests on targets. Sleeping 30 seconds.'') ?w1)"
        from "1.IH" [OF d Response _ _ True] True
        have "quiet ?w2 (out_world (getUnregisteredTargets token ?w2))" by simp
        moreover have "quiet w ?w2" by (simp add: quiet_def)
        moreover have "getUnregisteredTargets token w = getUnregisteredTargets token ?w2"
          using d Response True by (subst getUnregisteredTargets.simps) simp
        ultimately show ?thesis by (simp add: quiet_def)
      next
        case False
        with d Response show ?thesis
          by (subst getUnregisteredTargets.simps) (simp add: quiet_def split: sum.splits)
      qed
    qed
  qed
qed

lemma signupOnly_trans:
  assumes "signupOnly slug w w'" and "signupOnly slug w' w''"
  shows "signupOnly slug w w''"
proof -
  from assms have k: "knownSlugs w'' = knownSlugs w"
    and c: "signupCalls (trace w'') = signupCalls (trace w)"
    and a: "set (signupAttempts (trace w'')) \<subseteq> insert slug (set (signupAttempts (trace w')))"
    and b: "set (signupAttempts (trace w')) \<subseteq> insert slug (set (signupAttempts (trace w)))"
    by (simp_all add: signupOnly_def)
  from a b have "set (signupAttempts (trace w'')) \<subseteq> insert slug (set (signupAttempts (trace w)))"
    by blast
  with k c show ?thesis by (simp add: signupOnly_def)
qed

lemma signupOnly_signupTarget:
  "signupOnly slug w (out_world (signupTarget token slug w))"
proof (induction token slug w rule: signupTarget.induct)
  case (1 token slug w)
  show ?case
  proof (cases "http w")
    case Nil
    then show ?thesis
      by (subst signupTarget.simps) (simp add: Do_Nil signupOnly_def)
  next
    case (Cons resp rest)
    let ?w1 = "emit (Http (SignupReq token slug) resp) (w\<lparr>http := rest\<rparr>)"
    have d: "Do (SignupReq token slug) w = Return resp ?w1" using Cons by (rule Do_Cons)
    have q1: "signupOnly slug w ?w1" by (simp add: signupOnly_def)
    show ?thesis
    proof (cases resp)
      case (TransportError err)
      with d q1 show ?thesis by (subst signupTarget.simps) simp
    next
      case (Response code ra body)
      show ?thesis
      proof (cases "code = 429")
        case True
        let ?w2 = "emit (Sleep (30 * Second))
                     (emit (Println ''Got 429 Too Many Requests on signup. Sleeping 30 seconds.'') ?w1)"
        from "1.IH" [OF d Response _ _ True] True
        have "signupOnly slug ?w2 (out_world (signupTarget token slug ?w2))" by simp
        moreover have "signupOnly slug w ?w2" by (simp add: signupOnly_def)
        moreover have "signupTarget token slug w = signupTarget token slug ?w2"
          using d Response True by (subst signupTarget.simps) simp
        ultimately show ?thesis using signupOnly_trans by fastforce
      next
        case False
        with d Response show ?thesis
          by (subst signupTarget.simps) (simp add: signupOnly_def)
      qed
    qed
  qed
qed

lemma targetBody_known:
  assumes "Slug t \<in> dom (knownSlugs w)"
  shows "targetBody token t w = Next token w"
proof -
  from assms obtain v where "knownSlugs w (Slug t) = Some v" by blast
  then show ?thesis by (simp add: targetBody_def LoadOrStore_def)
qed

lemma targetBody_Inv:
  assumes "pollerInv w"
  shows "pollerInv (ctl_world (targetBody token t w))"
proof (cases "Slug t \<in> dom (knownSlugs w)")
  case True
  with assms show ?thesis by (simp add: targetBody_known)
next
  case False
  let ?w1 = "emit (SignupCall (Slug t)) (w\<lparr>knownSlugs := (knownSlugs w)(Slug t \<mapsto> True)\<rparr>)"
  let ?w2 = "out_world (signupTarget token (Slug t) ?w1)"
  from False assms have i1: "pollerInv ?w1"
    by (auto simp: pollerInv_def)
  have "signupOnly (Slug t) ?w1 ?w2" by (rule signupOnly_signupTarget)
  with i1 have i2: "pollerInv ?w2"
    by (auto simp: pollerInv_def signupOnly_def)
  have "ctl_world (targetBody token t w) = ?w2 \<or>
        (\<exists>e. ctl_world (targetBody token t w) = emit (Log e) ?w2)"
    using False
    by (auto simp: targetBody_def LoadOrStore_def split: outcome.splits option.splits)
  with i2 show ?thesis by (auto simp: pollerInv_def)
qed

lemma signupTargets_Inv:
  "pollerInv w \<Longrightarrow> pollerInv (ctl_world (signupTargets token targets w))"
proof (induction targets arbitrary: token w)
  case Nil
  then show ?case by simp
next
  case (Cons t targets)
  from Cons.prems have i: "pollerInv (ctl_world (targetBody token t w))" by (rule targetBody_Inv)
  show ?case
  proof (cases "targetBody token t w")
    case (Next token1 w1)
    with i Cons.IH [of w1 token1] show ?thesis by simp
  qed (use i in auto)
qed

lemma pollUnregisteredTargets_body_Inv:
  assumes "pollerInv w"
  shows "pollerInv (ctl_world (pollUnregisteredTargets_body token verbose w))"
proof -
  obtain token1 w1 where s: "selectToken token w = (token1, w1)" by force
  define w2 where "w2 = (if verbose then emit (Log ''Checking for unregistered targets...'') w1 else w1)"
  have i2: "pollerInv w2"
    using quiet_Inv [OF quiet_selectToken [OF s] assms] by (simp add: w2_def pollerInv_def)
  have i3: "pollerInv (out_world (getUnregisteredTargets token1 w2))"
    using quiet_getUnregisteredTargets i2 by (rule quiet_Inv)
  show ?thesis
  proof (cases "getUnregisteredTargets token1 w2")
    case (Blocked w3)
    with s i3 show ?thesis by (simp add: pollUnregisteredTargets_body_def w2_def)
  next
    case (Return r w3)
    with i3 have i3': "pollerInv w3" by simp
    show ?thesis
    proof (cases r)
      case (Inl err)
      show ?thesis
      proof (cases "Contains err ''401''")
        case True
        obtain newToken w4 where rt: "refreshToken w3 = (newToken, w4)" by force
        from quiet_Inv [OF quiet_refreshToken [OF rt] i3'] have "pollerInv (emit (ChanSend newToken) w4)"
          by (simp add: pollerInv_def)
        with s Return Inl True rt show ?thesis
          by (simp add: pollUnregisteredTargets_body_def w2_def)
      next
        case False
        from i3' have "pollerInv (emit (Sleep (5 * Minute)) (emit (Log err) w3))"
          by (simp add: pollerInv_def)
        with s Return Inl False show ?thesis
          by (simp add: pollUnregisteredTargets_body_def w2_def)
      qed
    next
      case (Inr targets)
      from i3' have i4: "pollerInv (ctl_world (signupTargets token1 targets w3))"
        by (rule signupTargets_Inv)
      then have "pollerInv (emit (Sleep (5 * Minute)) (ctl_world (signupTargets token1 targets w3)))"
        by (simp add: pollerInv_def)
      with i4 s Return Inr show ?thesis
        by (cases "signupTargets token1 targets w3")
          (simp_all add: pollUnregisteredTargets_body_def w2_def)
    qed
  qed
qed

lemma pollUnregisteredTargets_for_Inv:
  "pollerInv w \<Longrightarrow> pollerInv (ctl_world (pollUnregisteredTargets_for token verbose w))"
proof (induction token verbose w rule: pollUnregisteredTargets_for.induct)
  case (1 token verbose w)
  from "1.prems" have i: "pollerInv (ctl_world (pollUnregisteredTargets_body token verbose w))"
    by (rule pollUnregisteredTargets_body_Inv)
  show ?case
  proof (cases "pollUnregisteredTargets_body token verbose w")
    case (Next token1 w1)
    with i "1.IH" [of token1 w1] show ?thesis
      by (subst pollUnregisteredTargets_for.simps) simp
  qed (use i in \<open>subst pollUnregisteredTargets_for.simps, simp\<close>)+
qed

lemma pollUnregisteredTargets_Inv:
  "pollerInv w \<Longrightarrow> pollerInv (out_world (pollUnregisteredTargets token verbose w))"
  using pollUnregisteredTargets_for_Inv [of w token verbose]
  by (cases "pollUnregisteredTargets_for token verbose w") (simp_all add: pollUnregisteredTargets_def)

lemma distinct_count_list: "distinct xs \<Longrightarrow> count_list xs x = (if x \<in> set xs then 1 else 0)"
  by (induction xs) auto


lemma targetBody_stores:
  assumes "Slug t \<notin> dom (knownSlugs w)"
  shows "knownSlugs (ctl_world (targetBody token t w)) = (knownSlugs w)(Slug t \<mapsto> True)"
proof -
  let ?w1 = "emit (SignupCall (Slug t)) (w\<lparr>knownSlugs := (knownSlugs w)(Slug t \<mapsto> True)\<rparr>)"
  let ?w2 = "out_world (signupTarget token (Slug t) ?w1)"
  have "signupOnly (Slug t) ?w1 ?w2" by (rule signupOnly_signupTarget)
  then have k: "knownSlugs ?w2 = (knownSlugs w)(Slug t \<mapsto> True)" by (simp add: signupOnly_def)
  have "ctl_world (targetBody token t w) = ?w2 \<or>
        (\<exists>e. ctl_world (targetBody token t w) = emit (Log e) ?w2)"
    using assms
    by (auto simp: targetBody_def LoadOrStore_def split: outcome.splits option.splits)
  with k show ?thesis by auto
qed

lemmas poll_simps =
  pollUnregisteredTargets_def pollUnregisteredTargets_for.simps
  pollUnregisteredTargets_body_def getUnregisteredTargets.simps signupTarget.simps
  targetBody_def LoadOrStore_def selectToken_def Do_def emit_def script_def
  Minute_def Second_def

lemma twoCycles_run:
  "pollUnregisteredTargets ''jwt'' False twoCycles =
   Blocked
     \<lparr>http = [], chan = [], stdin = [],
      knownSlugs = [''a'' \<mapsto> True, ''b'' \<mapsto> True, ''c'' \<mapsto> True],
      trace =
        [Http (GetTargetsReq ''jwt'') (Response 200 [] (Inr [slugA, slugB])),
         SignupCall ''a'',
         Http (SignupReq ''jwt'' ''a'') (Response 200 [] (Inr [])),
         Println ''Signed up for target a successfully.'',
         SignupCall ''b'',
         Http (SignupReq ''jwt'' ''b'') (Response 200 [] (Inr [])),
         Println ''Signed up for target b successfully.'',
         Sleep 300000000000,
         Http (GetTargetsReq ''jwt'') (Response 200 [] (Inr [slugA, slugB, slugC])),
         SignupCall ''c'',
         Http (SignupReq ''jwt'' ''c'') (Response 200 [] (Inr [])),
         Println ''Signed up for target c successfully.'',
         Sleep 300000000000,
         HttpPending (GetTargetsReq ''jwt'')]\<rparr>"
  by (simp add: twoCycles_def poll_simps slugA_def slugB_def slugC_def)

lemma failedSignup_run:
  "pollUnregisteredTargets ''jwt'' False failedSignup =
   Blocked
     \<lparr>http = [], chan = [], stdin = [], knownSlugs = [''acme'' \<mapsto> True],
      trace =
        [Http (GetTargetsReq ''jwt'') (Response 200 [] (Inr [acme])),
         SignupCall ''acme'',
         Http (SignupReq ''jwt'' ''acme'') (Response 401 [] (Inr [])),
         Log ''unauthorized (401)'',
         Sleep 300000000000,
         Http (GetTargetsReq ''jwt'') (Response 200 [] (Inr [acme])),
         Sleep 300000000000,
         Http (GetTargetsReq ''jwt'') (Response 200 [] (Inr [acme])),
         Sleep 300000000000,
         HttpPending (GetTargetsReq ''jwt'')]\<rparr>"
  by (simp add: failedSignup_def poll_simps acme_def)


subsection \<open>Five forbidden outcomes\<close>

lemma set_segments: "set (segments vs) = {seg. sublist seg vs}"
  by (auto simp: segments_def sublist_altdef')

lemma fiveForbidden_iff:
  "fiveForbidden breaking vs =
     (\<exists>seg. sublist seg vs \<and> 5 \<le> count_list seg Forbidden \<and> set seg \<inter> set breaking = {})"
  by (simp add: fiveForbidden_def list_ex_iff set_segments)

lemma foldl_streakStep_unbroken:
  "set seg \<inter> {Claimed, AuthFailure} = {} \<Longrightarrow>
   foldl streakStep k seg = k + count_list seg Forbidden"
proof (induction seg arbitrary: k)
  case Nil
  then show ?case by simp
next
  case (Cons v seg)
  then show ?case by (cases v) auto
qed

lemma streak_snoc [simp]: "streak (vs @ [v]) = streakStep (streak vs) v"
  by (simp add: streak_def)

lemma streak_Nil [simp]: "streak [] = 0"
  by (simp add: streak_def)

lemma streak_segment:
  "\<exists>a seg. p = a @ seg \<and> set seg \<inter> {Claimed, AuthFailure} = {} \<and>
            count_list seg Forbidden = streak p"
proof (induction p rule: rev_induct)
  case Nil
  then show ?case by simp
next
  case (snoc v p)
  then obtain a seg where s: "p = a @ seg" "set seg \<inter> {Claimed, AuthFailure} = {}"
    "count_list seg Forbidden = streak p" by blast
  show ?case
  proof (cases "v = Claimed \<or> v = AuthFailure")
    case True
    then have "p @ [v] = (p @ [v]) @ [] \<and> set [] \<inter> {Claimed, AuthFailure} = {} \<and>
               count_list [] Forbidden = streak (p @ [v])" by auto
    then show ?thesis by blast
  next
    case False
    with s(2,3) have "set (seg @ [v]) \<inter> {Claimed, AuthFailure} = {} \<and>
                 count_list (seg @ [v]) Forbidden = streak (p @ [v])"
      by (cases v) auto
    moreover from s(1) have "p @ [v] = a @ (seg @ [v])" by simp
    ultimately show ?thesis by blast
  qed
qed

lemma tripped_iff: "tripped vs = fiveForbidden [Claimed, AuthFailure] vs"
proof
  assume "tripped vs"
  then obtain p where p: "prefix p vs" "5 \<le> streak p" by (auto simp: tripped_def)
  obtain a seg where s: "p = a @ seg" "set seg \<inter> {Claimed, AuthFailure} = {}"
    "count_list seg Forbidden = streak p" using streak_segment by blast
  from p(1) obtain b where "vs = p @ b" by (auto simp: prefix_def)
  with s have "sublist seg vs" by (auto simp: sublist_def)
  with s p show "fiveForbidden [Claimed, AuthFailure] vs"
    by (auto simp: fiveForbidden_iff)
next
  assume "fiveForbidden [Claimed, AuthFailure] vs"
  then obtain seg where s: "sublist seg vs" "5 \<le> count_list seg Forbidden"
    "set seg \<inter> {Claimed, AuthFailure} = {}" by (auto simp: fiveForbidden_iff)
  then obtain a b where v: "vs = a @ seg @ b" by (auto simp: sublist_def)
  have "streak (a @ seg) = foldl streakStep (streak a) seg" by (simp add: streak_def)
  also have "\<dots> = streak a + count_list seg Forbidden"
    using s(3) by (rule foldl_streakStep_unbroken)
  finally have "5 \<le> streak (a @ seg)" using s(2) by simp
  moreover have "prefix (a @ seg) vs" using v by simp
  ultimately show "tripped vs" by (auto simp: tripped_def)
qed

lemma tripped_snoc: "tripped (vs @ [v]) = (tripped vs \<or> 5 \<le> streak (vs @ [v]))"
  by (auto simp: tripped_def)

lemma tripped_Nil [simp]: "\<not> tripped []"
  by (simp add: tripped_def)



subsection \<open>The invariant of the Mission Poller\<close>

lemma observations_Nil [simp]: "observations [] = []"
  by (simp add: observations_def)

lemma observations_Cons [simp]: "observations (e # es) = observation e @ observations es"
  by (simp add: observations_def)

lemma observations_append [simp]: "observations (a @ b) = observations a @ observations b"
  by (simp add: observations_def)

lemma silent_selectToken: "selectToken token w = (token1, w1) \<Longrightarrow> silent w w1"
  by (auto simp: selectToken_def silent_def emit_def split: list.splits option.splits)

lemma silent_refreshToken: "refreshToken w = (newToken, w1) \<Longrightarrow> silent w w1"
  by (auto simp: refreshToken_def silent_def emit_def Let_def)

lemma silent_Inv: "silent w w' \<Longrightarrow> missionInv n w \<Longrightarrow> missionInv n w'"
  by (simp add: silent_def missionInv_def)

lemma silent_tasksBackoff: "silent w (tasksBackoff retryAfter w)"
  by (simp add: silent_def tasksBackoff_def split: option.splits)

lemma plain_TransportError:
  "plain (TransportError err) = (\<not> Contains err ''403'' \<and> \<not> Contains err ''401'')"
  by (simp add: plain_def)

lemma plain_Response:
  "plain (Response code retryAfter body) =
     (code < 1000 \<and> (case body of Inl err \<Rightarrow> \<not> Contains err ''401'' | Inr x \<Rightarrow> True))"
  by (simp add: plain_def)

lemma getTasks_Blocked_obs:
  "getTasks token w = Blocked w' \<Longrightarrow> observations (trace w') = observations (trace w)"
proof (induction token w rule: getTasks.induct)
  case (1 token w)
  show ?case
  proof (cases "http w")
    case Nil
    with "1.prems" show ?thesis
      by (subst (asm) getTasks.simps) (auto simp: Do_Nil)
  next
    case (Cons resp rest)
    let ?w1 = "emit (Http (GetTasksReq token) resp) (w\<lparr>http := rest\<rparr>)"
    have d: "Do (GetTasksReq token) w = Return resp ?w1" using Cons by (rule Do_Cons)
    show ?thesis
    proof (cases resp)
      case (TransportError err)
      with d "1.prems" show ?thesis by (subst (asm) getTasks.simps) simp
    next
      case (Response code ra body)
      show ?thesis
      proof (cases "code = 429")
        case True
        with d Response "1.prems" have "getTasks token (tasksBackoff ra ?w1) = Blocked w'"
          by (subst (asm) getTasks.simps) simp
        with "1.IH" [OF d Response _ _ True] True
        have "observations (trace w') = observations (trace (tasksBackoff ra ?w1))" by simp
        also have "\<dots> = observations (trace ?w1)"
          using silent_tasksBackoff [of ?w1 ra] by (simp add: silent_def)
        also have "\<dots> = observations (trace w)"
          using Response True by (simp add: fetchUnauthorized_def)
        finally show ?thesis .
      next
        case False
        with d Response "1.prems" show ?thesis
          by (subst (asm) getTasks.simps) (simp split: sum.splits if_splits)
      qed
    qed
  qed
qed

lemma getTasks_Return_obs:
  "getTasks token w = Return r w' \<Longrightarrow> list_all plain (http w) \<Longrightarrow>
   list_all plain (http w') \<and>
   observations (trace w') =
     observations (trace w) @
       (case r of Inl err \<Rightarrow> if Contains err ''401'' then [AuthFailure] else [] | Inr tasks \<Rightarrow> [])"
proof (induction token w rule: getTasks.induct)
  case (1 token w)
  from "1.prems"(1) obtain resp rest where Cons: "http w = resp # rest"
    by (subst (asm) getTasks.simps) (cases "http w", auto simp: Do_Nil)
  let ?w1 = "emit (Http (GetTasksReq token) resp) (w\<lparr>http := rest\<rparr>)"
  have d: "Do (GetTasksReq token) w = Return resp ?w1" using Cons by (rule Do_Cons)
  from Cons "1.prems"(2) have pl: "plain resp" "list_all plain rest" by simp_all
  show ?case
  proof (cases resp)
    case (TransportError err)
    with d "1.prems"(1) have "r = Inl err" "w' = ?w1"
      by (subst (asm) getTasks.simps, simp)+
    with pl TransportError show ?thesis
      by (simp add: plain_TransportError plain_Response fetchUnauthorized_def)
  next
    case (Response code ra body)
    show ?thesis
    proof (cases "code = 429")
      case True
      with d Response "1.prems"(1) have g: "getTasks token (tasksBackoff ra ?w1) = Return r w'"
        by (subst (asm) getTasks.simps) simp
      have "list_all plain (http (tasksBackoff ra ?w1))" using pl by simp
      with "1.IH" [OF d Response _ _ True g] True
      have "list_all plain (http w')" and
        "observations (trace w') = observations (trace (tasksBackoff ra ?w1)) @
           (case r of Inl err \<Rightarrow> if Contains err ''401'' then [AuthFailure] else [] | Inr tasks \<Rightarrow> [])"
        by simp_all
      moreover have "observations (trace (tasksBackoff ra ?w1)) = observations (trace w)"
        using silent_tasksBackoff [of ?w1 ra] Response True
        by (simp add: silent_def fetchUnauthorized_def)
      ultimately show ?thesis by simp
    next
      case False
      note not429 = False
      show ?thesis
      proof (cases "code = 200")
        case True
        with d Response "1.prems"(1) have "w' = ?w1" "r = (case body of Inl err \<Rightarrow> Inl err | Inr tasks \<Rightarrow> Inr tasks)"
          by (subst (asm) getTasks.simps, simp split: sum.splits)+
        with pl Response True show ?thesis
          by (cases body) (auto simp: plain_TransportError plain_Response fetchUnauthorized_def)
      next
        case False
        note not200 = False
        show ?thesis
        proof (cases "code = 401")
          case True
          with d Response "1.prems"(1) have "w' = ?w1" "r = Inl ''unauthorized (401)''"
            by (subst (asm) getTasks.simps, simp)+
          with pl Response True show ?thesis
            by (simp add: fetchUnauthorized_def)
        next
          case False
          with d Response not429 not200 "1.prems"(1) have "w' = ?w1"
            "r = Inl (''failed to retrieve tasks, status code: '' @ itoa (int code))"
            by (subst (asm) getTasks.simps, simp)+
          moreover from pl Response have "code < 1000" by (simp add: plain_TransportError plain_Response)
          then have "Contains (itoa_nat code) ''401'' = (code = 401)" by (rule Contains_itoa_401)
          ultimately show ?thesis using pl Response False
            by (simp add: fetchUnauthorized_def itoa_int)
        qed
      qed
    qed
  qed
qed


lemma missionInv_step:
  assumes "missionInv n w" and "list_all plain (http w')"
    and "observations (trace w') = observations (trace w) @ [v]"
    and "streakStep n v < 5"
  shows "missionInv (streakStep n v) w'"
  using assms by (simp add: missionInv_def tripped_snoc)

lemma claimBody_OK:
  assumes "missionInv n w"
  shows "ctlOK (claimBody token n task w)"
proof (cases "http w")
  case Nil
  then have "claimBody token n task w = Hang (token, n) (emit (HttpPending (ClaimReq token task)) w)"
    by (simp add: claimBody_def postClaimTask_def Do_Nil)
  with assms show ?thesis by (simp add: ctlOK_def missionInv_def)
next
  case (Cons r rs)
  let ?w1 = "emit (Http (ClaimReq token task) r) (w\<lparr>http := rs\<rparr>)"
  from assms Cons have pl: "plain r" "list_all plain rs" by (simp_all add: missionInv_def)
  have o1: "observations (trace ?w1) = observations (trace w) @ [claimVerdict r]" by simp
  show ?thesis
  proof (cases "claimVerdict r")
    case Claimed
    let ?w' = "emit (Sleep (5 * Second))
               (emit (Println (''Claimed task '' @ ID task @ '' successfully.''))
                 (emit (Println ''Mission claimed successfully.'') ?w1))"
    have "missionInv (streakStep n (claimVerdict r)) ?w'"
      using assms by (rule missionInv_step) (use pl Claimed in simp_all)
    with Claimed claimBody_Claimed [OF Cons Claimed, of token n task] show ?thesis
      by (simp add: ctlOK_def)
  next
    case Forbidden
    let ?w2 = "emit (Log (''Got 403. Current consecutive403Count = '' @ itoa (int (n + 1)))) ?w1"
    note b = claimBody_Forbidden [OF Cons pl(1) Forbidden, of token n task]
    show ?thesis
    proof (cases "5 \<le> n + 1")
      case True
      from assms have "streak (observations (trace w) @ [Forbidden]) = n + 1"
        by (simp add: missionInv_def)
      with True have "tripped (observations (trace w) @ [Forbidden])"
        by (simp add: tripped_snoc)
      moreover from assms True have "n + 1 = 5" by (simp add: missionInv_def)
      ultimately show ?thesis using b True Forbidden by (simp add: ctlOK_def)
    next
      case False
      have "missionInv (streakStep n (claimVerdict r)) ?w2"
        using assms by (rule missionInv_step) (use pl Forbidden False in simp_all)
      with b False Forbidden show ?thesis by (simp add: ctlOK_def)
    qed
  next
    case AuthFailure
    obtain newToken w2 where rt: "refreshToken ?w1 = (newToken, w2)" by force
    from silent_refreshToken [OF rt]
    have "http (emit (ChanSend newToken) w2) = rs"
      "observations (trace (emit (ChanSend newToken) w2)) = observations (trace w) @ [claimVerdict r]"
      by (simp_all add: silent_def)
    with pl AuthFailure have "missionInv (streakStep n (claimVerdict r)) (emit (ChanSend newToken) w2)"
      using missionInv_step [OF assms, of "emit (ChanSend newToken) w2" "claimVerdict r"] by simp
    with AuthFailure rt claimBody_AuthFailure [OF Cons pl(1) AuthFailure, of token n task] show ?thesis
      by (simp add: ctlOK_def)
  next
    case OtherFailure
    from claimBody_OtherFailure [OF Cons pl(1) OtherFailure, of token n task] obtain e where
      b: "claimBody token n task w = Next (token, n) (emit (Log e) ?w1)" by blast
    from assms have "n < 5" by (simp add: missionInv_def)
    then have "missionInv (streakStep n (claimVerdict r)) (emit (Log e) ?w1)"
      using missionInv_step [OF assms, of "emit (Log e) ?w1" "claimVerdict r"] pl OtherFailure by simp
    with b OtherFailure show ?thesis by (simp add: ctlOK_def)
  qed
qed

lemma claimTasks_OK:
  "missionInv n w \<Longrightarrow> ctlOK (claimTasks token n tasks w)"
proof (induction tasks arbitrary: token n w)
  case Nil
  then show ?case by (simp add: ctlOK_def)
next
  case (Cons task tasks)
  from Cons.prems have b: "ctlOK (claimBody token n task w)" by (rule claimBody_OK)
  show ?case
  proof (cases "claimBody token n task w")
    case (Next s1 w1)
    obtain token1 n1 where s1: "s1 = (token1, n1)" by (cases s1)
    with b Next have "missionInv n1 w1" by (simp add: ctlOK_def)
    then have "ctlOK (claimTasks token1 n1 tasks w1)" by (rule Cons.IH)
    with Next s1 show ?thesis by simp
  qed (use b in simp_all)
qed

lemma mainLoop_body_OK:
  assumes "missionInv n w"
  shows "ctlOK (mainLoop_body token n verbose w)"
proof -
  obtain token1 w1 where s: "selectToken token w = (token1, w1)" by force
  define w2 where "w2 = (if verbose then emit (Log ''Checking for available missions...'') w1 else w1)"
  from silent_selectToken [OF s] have "silent w w2" by (simp add: w2_def silent_def)
  with assms have i2: "missionInv n w2" using silent_Inv by blast
  show ?thesis
  proof (cases "getTasks token1 w2")
    case (Blocked w3)
    from getTasks_Blocked_obs [OF Blocked] i2 have "\<not> tripped (observations (trace w3))"
      by (simp add: missionInv_def)
    with s Blocked show ?thesis by (simp add: mainLoop_body_def w2_def ctlOK_def)
  next
    case (Return r w3)
    from i2 have "list_all plain (http w2)" by (simp add: missionInv_def)
    from getTasks_Return_obs [OF Return this]
    have p3: "list_all plain (http w3)"
      and o3: "observations (trace w3) = observations (trace w2) @
             (case r of Inl err \<Rightarrow> if Contains err ''401'' then [AuthFailure] else [] | Inr tasks \<Rightarrow> [])"
      by simp_all
    show ?thesis
    proof (cases r)
      case (Inl err)
      show ?thesis
      proof (cases "Contains err ''401''")
        case True
        obtain newToken w4 where rt: "refreshToken w3 = (newToken, w4)" by force
        from silent_refreshToken [OF rt] p3 o3 Inl True
        have "list_all plain (http (emit (ChanSend newToken) w4))"
          "observations (trace (emit (ChanSend newToken) w4)) = observations (trace w2) @ [AuthFailure]"
          by (simp_all add: silent_def)
        then have "missionInv (streakStep n AuthFailure) (emit (ChanSend newToken) w4)"
          using missionInv_step [OF i2, of "emit (ChanSend newToken) w4" AuthFailure] by simp
        with s Return Inl True rt show ?thesis
          by (simp add: mainLoop_body_def w2_def ctlOK_def)
      next
        case False
        with o3 Inl p3 i2 have "missionInv n (emit (Sleep (15 * Second)) (emit (Log err) w3))"
          by (simp add: missionInv_def)
        with s Return Inl False show ?thesis
          by (simp add: mainLoop_body_def w2_def ctlOK_def)
      qed
    next
      case (Inr tasks)
      with o3 p3 i2 have i3: "missionInv n w3" by (simp add: missionInv_def)
      then have c: "ctlOK (claimTasks token1 n tasks w3)" by (rule claimTasks_OK)
      show ?thesis
      proof (cases "claimTasks token1 n tasks w3")
        case (Next s4 w4)
        with c have "missionInv (snd s4) (emit (Sleep (15 * Second)) w4)"
          by (simp add: ctlOK_def missionInv_def)
        with s Return Inr Next show ?thesis
          by (simp add: mainLoop_body_def w2_def ctlOK_def)
      next
        case (Break s4 w4)
        with c have "missionInv (snd s4) (emit (Sleep (15 * Second)) w4)"
          by (simp add: ctlOK_def missionInv_def)
        with s Return Inr Break show ?thesis
          by (simp add: mainLoop_body_def w2_def ctlOK_def)
      next
        case (Exit s4 w4)
        with c s Return Inr show ?thesis
          by (simp add: mainLoop_body_def w2_def ctlOK_def)
      next
        case (Hang s4 w4)
        with c s Return Inr show ?thesis
          by (simp add: mainLoop_body_def w2_def ctlOK_def)
      qed
    qed
  qed
qed

lemma mainLoop_body_no_Break: "mainLoop_body token n verbose w \<noteq> Break s w'"
  by (auto simp: mainLoop_body_def Let_def
      split: prod.splits outcome.splits sum.splits control.splits if_splits)

lemma mainLoop_for_OK:
  "missionInv n w \<Longrightarrow>
   (\<exists>s w'. mainLoop_for token n verbose w = Exit s w' \<and> tripped (observations (trace w')) \<and>
      snd s = 5) \<or>
   (\<exists>s w'. mainLoop_for token n verbose w = Hang s w' \<and> \<not> tripped (observations (trace w')))"
proof (induction token n verbose w rule: mainLoop_for.induct)
  case (1 token n verbose w)
  from "1.prems" have b: "ctlOK (mainLoop_body token n verbose w)" by (rule mainLoop_body_OK)
  show ?case
  proof (cases "mainLoop_body token n verbose w")
    case (Next s1 w1)
    obtain token1 n1 where s1: "s1 = (token1, n1)" by (cases s1)
    from Next s1 have nx: "mainLoop_body token n verbose w = Next (token1, n1) w1" by simp
    with b have inv: "missionInv n1 w1" by (simp add: ctlOK_def)
    have eq: "mainLoop_for token n verbose w = mainLoop_for token1 n1 verbose w1"
      by (subst mainLoop_for.simps) (simp add: nx)
    show ?thesis unfolding eq by (rule "1.IH" [OF nx refl inv])
  next
    case (Break s1 w1)
    then show ?thesis using mainLoop_body_no_Break by blast
  next
    case (Exit s1 w1)
    with b have "mainLoop_for token n verbose w = Exit s1 w1 \<and> tripped (observations (trace w1)) \<and>
        snd s1 = 5"
      by (subst mainLoop_for.simps) (simp add: ctlOK_def)
    then show ?thesis by blast
  next
    case (Hang s1 w1)
    with b have "mainLoop_for token n verbose w = Hang s1 w1 \<and> \<not> tripped (observations (trace w1))"
      by (subst mainLoop_for.simps) (simp add: ctlOK_def)
    then show ?thesis by blast
  qed
qed


lemma fresh_token: "TrimSpace ''fresh\<newline>'' = ''fresh''"
  by code_simp

lemma refreshedStreak_run:
  "mainLoop ''jwt'' False refreshedStreak =
   Blocked
     \<lparr>http = [], chan = [], stdin = [], knownSlugs = Map.empty,
      trace =
        [Http (GetTasksReq ''jwt'') (Response 200 [] (Inr [task1, task2, task1, task2, task1])),
         Http (ClaimReq ''jwt'' task1) (status 403),
         Log ''Got 403. Current consecutive403Count = 1'',
         Http (ClaimReq ''jwt'' task2) (status 403),
         Log ''Got 403. Current consecutive403Count = 2'',
         Http (ClaimReq ''jwt'' task1) (status 403),
         Log ''Got 403. Current consecutive403Count = 3'',
         Http (ClaimReq ''jwt'' task2) (status 403),
         Log ''Got 403. Current consecutive403Count = 4'',
         Http (ClaimReq ''jwt'' task1) (status 401),
         Print ''Token expired or invalid. Please enter a new token:\<newline>> '',
         Stdin ''fresh\<newline>'',
         ChanSend ''fresh'',
         Sleep 15000000000,
         Http (GetTasksReq ''fresh'') (Response 200 [] (Inr [task1])),
         Http (ClaimReq ''fresh'' task1) (status 403),
         Log ''Got 403. Current consecutive403Count = 1'',
         Sleep 15000000000,
         HttpPending (GetTasksReq ''fresh'')]\<rparr>"
proof -
  have r: "ReadString CHR ''\<newline>'' ''fresh\<newline>'' = ''fresh\<newline>''"
    by (simp add: ReadString_def)
  show ?thesis
    unfolding refreshedStreak_def
    by (simp add: mainLoop_def mainLoop_for.simps mainLoop_body_def getTasks.simps claimBody_def
        postClaimTask_def refreshToken_def Do_def emit_def selectToken_def status_def Let_def
        Second_def itoa_def itoa_nat.simps digit_def fresh_token r)
qed

lemma fiveInARow_run:
  "mainLoop ''jwt'' False fiveInARow =
   Return ()
     \<lparr>http = [status 201, Response 200 [] (Inr [])], chan = [], stdin = [], knownSlugs = Map.empty,
      trace =
        [Http (GetTasksReq ''jwt'') (Response 200 [] (Inr sixTasks)),
         Http (ClaimReq ''jwt'' task1) (status 403),
         Log ''Got 403. Current consecutive403Count = 1'',
         Http (ClaimReq ''jwt'' task2) (status 403),
         Log ''Got 403. Current consecutive403Count = 2'',
         Http (ClaimReq ''jwt'' task1) (status 403),
         Log ''Got 403. Current consecutive403Count = 3'',
         Http (ClaimReq ''jwt'' task2) (status 403),
         Log ''Got 403. Current consecutive403Count = 4'',
         Http (ClaimReq ''jwt'' task1) (status 403),
         Log ''Got 403. Current consecutive403Count = 5'',
         Log ''Received 403 five times in a row. Stopping the bot.'']\<rparr>"
  unfolding fiveInARow_def
  by (simp add: run_simps sixTasks_def itoa_def itoa_nat.simps digit_def)

lemma verdicts_refreshed:
  "fiveForbidden [Claimed] [Forbidden, Forbidden, Forbidden, Forbidden, AuthFailure, Forbidden]"
  "\<not> fiveForbidden [Claimed, AuthFailure]
       [Forbidden, Forbidden, Forbidden, Forbidden, AuthFailure, Forbidden]"
  by code_simp+

lemma verdicts_five:
  "fiveForbidden [Claimed, AuthFailure] [Forbidden, Forbidden, Forbidden, Forbidden, Forbidden]"
  by code_simp


subsection \<open>Parsing the command line\<close>

lemma parseOne_t: "parseOne f (''-t'' # tok # rest) = Seen (f\<lparr>tokenFlag := tok\<rparr>) rest"
  by (simp add: parseOne_def Let_def)

lemma parseOne_v: "parseOne f (''-v'' # rest) = Seen (f\<lparr>verboseFlag := True\<rparr>) rest"
  by (simp add: parseOne_def Let_def)

lemma parseOne_v_true: "parseOne f (''-v=true'' # rest) = Seen (f\<lparr>verboseFlag := True\<rparr>) rest"
  by (simp add: parseOne_def Let_def ParseBool_def)

lemma parseOne_v_false: "parseOne f (''-v=false'' # rest) = Seen (f\<lparr>verboseFlag := False\<rparr>) rest"
  by (simp add: parseOne_def Let_def ParseBool_def)

lemma parseOne_t_eq:
  "parseOne f ((CHR ''-'' # CHR ''t'' # CHR ''='' # tok) # rest) = Seen (f\<lparr>tokenFlag := tok\<rparr>) rest"
  by (simp add: parseOne_def Let_def)

lemma parseOne_words:
  "parseOne f (words g @ rest) = Seen (setGiven f g) rest"
  by (cases g) (simp_all add: parseOne_t parseOne_t_eq parseOne_v parseOne_v_true parseOne_v_false)

lemma parseOne_help:
  "h \<in> set [''-h'', ''--h'', ''-help'', ''--help''] \<Longrightarrow> parseOne f (h # rest) = ErrHelp"
proof -
  assume "h \<in> set [''-h'', ''--h'', ''-help'', ''--help'']"
  then consider "h = ''-h''" | "h = ''--h''" | "h = ''-help''" | "h = ''--help''" by auto
  then show ?thesis by cases (simp_all add: parseOne_def Let_def)
qed

lemma parseOne_undefined:
  assumes "name \<noteq> []" "CHR ''-'' \<notin> set name" "CHR ''='' \<notin> set name"
    "name \<notin> set [''t'', ''v'', ''h'', ''help'']"
  shows "parseOne f ((CHR ''-'' # name) # rest) = Failf (NotDefined name)"
proof -
  obtain c cs where n: "name = c # cs" using assms(1) by (cases name) auto
  with assms(3) have t: "\<forall>x\<in>set cs. x \<noteq> CHR ''=''" "CHR ''='' \<notin> set cs"
    by auto
  from n assms(2,3) have c: "c \<noteq> CHR ''-''" "c \<noteq> CHR ''=''" by auto
  have "parseOne f ((CHR ''-'' # c # cs) # rest) =
          (let name = c # cs
           in if name = ''t'' then
                (case rest of
                   [] \<Rightarrow> Failf (NeedsArgument name)
                 | value # args'' \<Rightarrow> Seen (f\<lparr>tokenFlag := value\<rparr>) args'')
              else if name = ''v'' then Seen (f\<lparr>verboseFlag := True\<rparr>) rest
              else if name = ''help'' \<or> name = ''h'' then ErrHelp
              else Failf (NotDefined name))"
    using t c by (simp add: parseOne_def Let_def takeWhile_eq_all_conv [THEN iffD2])
  with n assms(4) show ?thesis by (auto simp: Let_def)
qed

lemma flag_Parse_from_commandLine:
  "flag_Parse_from f (commandLine gs @ rest) = flag_Parse_from (foldl setGiven f gs) rest"
proof (induction gs arbitrary: f)
  case Nil
  then show ?case by (simp add: commandLine_def)
next
  case (Cons g gs)
  have "flag_Parse_from f (commandLine (g # gs) @ rest) =
        flag_Parse_from f (words g @ (commandLine gs @ rest))"
    by (simp add: commandLine_def)
  also have "\<dots> = flag_Parse_from (setGiven f g) (commandLine gs @ rest)"
    by (subst flag_Parse_from.simps) (simp add: parseOne_words)
  also have "\<dots> = flag_Parse_from (foldl setGiven (setGiven f g) gs) rest"
    by (rule Cons.IH)
  finally show ?case by simp
qed

lemma tokenFlag_foldl:
  "tokenFlag (foldl setGiven f gs) = (case givenToken gs of None \<Rightarrow> tokenFlag f | Some tok \<Rightarrow> tok)"
proof (induction gs arbitrary: f)
  case Nil
  then show ?case by simp
next
  case (Cons g gs)
  then show ?case by (cases g) (simp_all split: option.splits)
qed

lemma verboseFlag_foldl:
  "verboseFlag (foldl setGiven f gs) = (case givenVerbose gs of None \<Rightarrow> verboseFlag f | Some b \<Rightarrow> b)"
proof (induction gs arbitrary: f)
  case Nil
  then show ?case by simp
next
  case (Cons g gs)
  then show ?case by (cases g) (simp_all split: option.splits)
qed

lemma flag_Parse_commandLine:
  "flag_Parse (commandLine gs) = Inr (foldl setGiven \<lparr>tokenFlag = [], verboseFlag = False\<rparr> gs)"
  using flag_Parse_from_commandLine [of "\<lparr>tokenFlag = [], verboseFlag = False\<rparr>" gs "[]"]
  by (simp add: flag_Parse_def flag_Parse_from.simps [of _ "[]"] parseOne_def)

lemma main_commandLine:
  "main (commandLine gs) =
     (case givenToken gs of
        None \<Rightarrow> [Usage, OsExit 1]
      | Some token \<Rightarrow>
          if token = [] then [Usage, OsExit 1]
          else [Go_pollUnregisteredTargets token Map.empty (verboseOf gs),
                Call_mainLoop token (verboseOf gs)])"
  by (simp add: main_def flag_Parse_commandLine tokenFlag_foldl verboseFlag_foldl verboseOf_def
      Let_def split: option.splits)

lemma main_help:
  "h \<in> set [''-h'', ''--h'', ''-help'', ''--help''] \<Longrightarrow>
   main (commandLine gs @ h # rest) = [Usage, OsExit 0]"
  by (simp add: main_def flag_Parse_def flag_Parse_from_commandLine
      flag_Parse_from.simps [of _ "h # rest"] parseOne_help)

lemma main_undefined:
  assumes "name \<noteq> []" "CHR ''-'' \<notin> set name" "CHR ''='' \<notin> set name"
    "name \<notin> set [''t'', ''v'', ''h'', ''help'']"
  shows "main (commandLine gs @ (CHR ''-'' # name) # rest) =
           [FlagError (NotDefined name), Usage, OsExit 2]"
  by (simp add: main_def flag_Parse_def flag_Parse_from_commandLine
      flag_Parse_from.simps [of _ "(CHR ''-'' # name) # rest"] parseOne_undefined [OF assms])

lemma flag_Parse_from_Inl:
  "flag_Parse_from f args = Inl acts \<Longrightarrow>
   acts = [Usage, OsExit 0] \<or> (\<exists>err. acts = [FlagError err, Usage, OsExit 2])"
proof (induction f args rule: flag_Parse_from.induct)
  case (1 f args)
  show ?case
  proof (cases "parseOne f args")
    case (Seen f' args')
    with "1.prems" have "flag_Parse_from f' args' = Inl acts"
      by (subst (asm) flag_Parse_from.simps) simp
    with Seen show ?thesis by (rule "1.IH")
  next
    case Stop
    with "1.prems" show ?thesis by (subst (asm) flag_Parse_from.simps) simp
  next
    case ErrHelp
    with "1.prems" show ?thesis by (subst (asm) flag_Parse_from.simps) auto
  next
    case (Failf err)
    with "1.prems" show ?thesis by (subst (asm) flag_Parse_from.simps) auto
  qed
qed

lemma main_forms:
  "main args = [Usage, OsExit 0] \<or> (\<exists>err. main args = [FlagError err, Usage, OsExit 2]) \<or>
   main args = [Usage, OsExit 1] \<or>
   (\<exists>token verbose. token \<noteq> [] \<and>
      main args = [Go_pollUnregisteredTargets token Map.empty verbose, Call_mainLoop token verbose])"
proof (cases "flag_Parse args")
  case (Inl acts)
  then show ?thesis using flag_Parse_from_Inl [of _ args acts]
    by (auto simp: main_def flag_Parse_def)
next
  case (Inr f)
  then show ?thesis by (auto simp: main_def Let_def)
qed

subsection \<open>Passes of the outer loop of the Mission Poller\<close>

lemma mainLoop_for_passes:
  "mainLoop_passes k token n verbose w = Next (token', n') w' \<Longrightarrow>
   mainLoop_for token n verbose w = mainLoop_for token' n' verbose w'"
proof (induction k arbitrary: token n w)
  case 0
  then show ?case by simp
next
  case (Suc k)
  show ?case
  proof (cases "mainLoop_body token n verbose w")
    case (Next s1 w1)
    obtain t1 n1 where s1: "s1 = (t1, n1)" by (cases s1)
    with Next Suc.prems have "mainLoop_passes k t1 n1 verbose w1 = Next (token', n') w'"
      by simp
    then have "mainLoop_for t1 n1 verbose w1 = mainLoop_for token' n' verbose w'"
      by (rule Suc.IH)
    with Next s1 show ?thesis by (subst mainLoop_for.simps) simp
  next
    case (Break s1 w1)
    with Suc.prems show ?thesis by simp
  next
    case (Exit s1 w1)
    with Suc.prems show ?thesis by simp
  next
    case (Hang s1 w1)
    with Suc.prems show ?thesis by simp
  qed
qed

section \<open>The claims\<close>

text \<open>
  C1, as amended. Over a finite script of plain responses, from the start of the
  process, \<^verbatim>\<open>mainLoop\<close> returns if and only if it has observed five forbidden
  (403) answers to claim requests with no successful claim and no authorization failure
  (401, of a fetch or of a claim) between them; otherwise the run ends blocked in a
  request, and \<^verbatim>\<open>mainLoop\<close> returns in no other case. When it returns,
  \<^verbatim>\<open>consecutive403Count\<close> is 5. (The specification counts every five
  forbidden answers with no successful claim between them; in the run
  \<open>refreshedStreak\<close> a 401 after the fourth resets the counter, and after the
  fifth \<^verbatim>\<open>mainLoop\<close> is still running.)
\<close>

theorem mainLoop_returns_iff:
  assumes "list_all plain (http w)" and "trace w = []"
  shows "returned (mainLoop token verbose w) =
           fiveForbidden [Claimed, AuthFailure]
             (observations (trace (out_world (mainLoop token verbose w)))) \<and>
         (returned (mainLoop token verbose w) \<longrightarrow>
            snd (ctl_vars (mainLoop_for token 0 verbose w)) = 5)"
proof -
  from assms have "missionInv 0 w" by (simp add: missionInv_def)
  from mainLoop_for_OK [OF this, of token verbose] show ?thesis
    by (auto simp: mainLoop_def tripped_iff)
qed



theorem mainLoop_returns_iff_witness:
  "list_all plain (http fiveInARow) \<and> trace fiveInARow = [] \<and>
   returned (mainLoop ''jwt'' False fiveInARow) \<and>
   fiveForbidden [Claimed, AuthFailure]
     (observations (trace (out_world (mainLoop ''jwt'' False fiveInARow)))) \<and>
   snd (ctl_vars (mainLoop_for ''jwt'' 0 False fiveInARow)) = 5 \<and>
   list_all plain (http refreshedStreak) \<and> trace refreshedStreak = [] \<and>
   \<not> returned (mainLoop ''jwt'' False refreshedStreak) \<and>
   \<not> fiveForbidden [Claimed, AuthFailure]
     (observations (trace (out_world (mainLoop ''jwt'' False refreshedStreak))))"
proof -
  have a: "list_all plain (http fiveInARow) \<and> trace fiveInARow = []"
    by (simp add: fiveInARow_def script_def status_def plain_Response)
  have b: "list_all plain (http refreshedStreak) \<and> trace refreshedStreak = []"
    by (simp add: refreshedStreak_def status_def plain_Response)
  from a b mainLoop_returns_iff [of fiveInARow "''jwt''" False]
    mainLoop_returns_iff [of refreshedStreak "''jwt''" False]
  show ?thesis
    by (simp add: fiveInARow_run refreshedStreak_run)
qed

theorem mainLoop_returns_iff_counterexample:
  "observations (trace (out_world (mainLoop ''jwt'' False refreshedStreak))) =
     [Forbidden, Forbidden, Forbidden, Forbidden, AuthFailure, Forbidden] \<and>
   fiveForbidden [Claimed] (observations (trace (out_world (mainLoop ''jwt'' False refreshedStreak)))) \<and>
   \<not> returned (mainLoop ''jwt'' False refreshedStreak)"
  by (simp add: refreshedStreak_run status_def claimVerdict_def fetchUnauthorized_def
      verdicts_refreshed)




text \<open>
  C3. A claim attempt answered 412 should make the Mission Poller log it and abandon
  the remaining missions of the batch. \<^verbatim>\<open>mainLoop\<close> does not: \<^verbatim>\<open>postClaimTask\<close>
  returns its own error for a 412, but the claim loop has no branch for it, so the
  error is logged by the last \<^verbatim>\<open>else\<close> and the loop goes on. In the run below the
  batch has two missions; the claim for the first is answered 412, and the trace shows
  a claim request for the second, which is answered 201. (The run ends blocked in the
  next fetch, so \<^verbatim>\<open>mainLoop\<close> has not returned, and no 403 was counted: these parts
  of the claim hold.)
\<close>

theorem precondition_failed_not_abandoned:
  "mainLoop ''jwt'' False (script [Response 200 [] (Inr [task1, task2]), status 412, status 201]) =
     Blocked
       \<lparr>http = [], chan = [], stdin = [], knownSlugs = Map.empty,
        trace =
          [Http (GetTasksReq ''jwt'') (Response 200 [] (Inr [task1, task2])),
           Http (ClaimReq ''jwt'' task1) (status 412),
           Log ''Mission cannot be claimed anymore (412)'',
           Http (ClaimReq ''jwt'' task2) (status 201),
           Println ''Mission claimed successfully.'',
           Println ''Claimed task m2 successfully.'',
           Sleep 5000000000,
           Sleep 15000000000,
           HttpPending (GetTasksReq ''jwt'')]\<rparr>"
  by (simp add: run_simps task2_def)

text \<open>
  C4. The specification has a request answered 429 retried once and never more than
  once.
  \<^verbatim>\<open>getTasks\<close> calls itself after the wait, so a retry that is answered 429 again
  is retried again: on the answers 429, 429, 200 it issues three requests (two
  retries), waiting 30 seconds after the first (no \<^verbatim>\<open>Retry-After\<close>) and 7 seconds
  after the second (\<^verbatim>\<open>Retry-After: 7\<close>). The comment in the source says
  \<^verbatim>\<open>Retry once after waiting\<close>. \<^verbatim>\<open>getUnregisteredTargets\<close> and
  \<^verbatim>\<open>signupTarget\<close> recurse in the same way.
\<close>

theorem getTasks_retries_every_429:
  "getTasks ''jwt''
     (script [Response 429 [] (Inr []), Response 429 ''7'' (Inr []), Response 200 [] (Inr [task1])]) =
   Return (Inr [task1])
     \<lparr>http = [], chan = [], stdin = [], knownSlugs = Map.empty,
      trace =
        [Http (GetTasksReq ''jwt'') (Response 429 [] (Inr [])),
         Println ''Got 429 Too Many Requests. Sleeping 30 seconds.'',
         Sleep 30000000000,
         Http (GetTasksReq ''jwt'') (Response 429 ''7'' (Inr [])),
         Println ''Got 429 Too Many Requests, waiting 7 seconds...'',
         Sleep 7000000000,
         Http (GetTasksReq ''jwt'') (Response 200 [] (Inr [task1]))]\<rparr>"
  by (simp add: getTasks.simps tasksBackoff_def Do_def emit_def script_def Atoi_def
      is_digit_def digits_val_def digit_val_def Seconds_def Second_def itoa_def itoa_nat.simps
      digit_def)

text \<open>
  C5. Over a whole run of \<^verbatim>\<open>pollUnregisteredTargets\<close> from the start of the
  process (an empty trace), whatever the platform answers and however often a fetch
  returns a slug, \<^verbatim>\<open>signupTarget\<close> is called at most once for each slug; and a
  target whose slug is already in the Known-Slugs Set is skipped: the pass through
  the loop body for it changes nothing and requests nothing.
\<close>

theorem slug_registered_at_most_once:
  "(trace w = [] \<longrightarrow>
      count_list (signupCalls (trace (out_world (pollUnregisteredTargets token verbose w)))) slug \<le> 1) \<and>
   (Slug t \<in> dom (knownSlugs w) \<longrightarrow> targetBody token t w = Next token w)"
proof (intro conjI impI)
  assume "trace w = []"
  then have "pollerInv w" by (simp add: pollerInv_def)
  then have "pollerInv (out_world (pollUnregisteredTargets token verbose w))"
    by (rule pollUnregisteredTargets_Inv)
  then have "distinct (signupCalls (trace (out_world (pollUnregisteredTargets token verbose w))))"
    by (simp add: pollerInv_def)
  then show "count_list (signupCalls (trace (out_world (pollUnregisteredTargets token verbose w)))) slug \<le> 1"
    by (simp add: distinct_count_list)
next
  assume "Slug t \<in> dom (knownSlugs w)"
  then show "targetBody token t w = Next token w" by (rule targetBody_known)
qed


theorem slug_registered_at_most_once_witness:
  "trace twoCycles = [] \<and>
   signupCalls (trace (out_world (pollUnregisteredTargets ''jwt'' False twoCycles))) = [''a'', ''b'', ''c''] \<and>
   count_list (signupCalls (trace (out_world (pollUnregisteredTargets ''jwt'' False twoCycles)))) ''a'' \<le> 1 \<and>
   Slug slugA \<in> dom (knownSlugs (out_world (pollUnregisteredTargets ''jwt'' False twoCycles))) \<and>
   targetBody ''jwt'' slugA (out_world (pollUnregisteredTargets ''jwt'' False twoCycles)) =
     Next ''jwt'' (out_world (pollUnregisteredTargets ''jwt'' False twoCycles))"
  using slug_registered_at_most_once [of twoCycles "''jwt''" False "''a''" slugA]
    slug_registered_at_most_once
      [of "out_world (pollUnregisteredTargets ''jwt'' False twoCycles)" "''jwt''" False "''a''" slugA]
  by (simp add: twoCycles_run slugA_def) (simp add: twoCycles_def script_def)

text \<open>
  C6. The specification has an authorization failure (401) of a registration trigger
  \<^verbatim>\<open>refreshToken\<close> and the broadcast of the new token.
  \<^verbatim>\<open>pollUnregisteredTargets\<close> only logs the error that \<^verbatim>\<open>signupTarget\<close>
  returns: in this run the slug \<^verbatim>\<open>acme\<close> is new, its registration is answered 401,
  and the poller logs the error and sleeps; it prints no prompt, reads nothing from
  standard input, sends nothing on \<^verbatim>\<open>tokenChan\<close> and makes its next fetch with
  the old token. (A 401 of the fetch itself does trigger the refresh, in the same
  function.)
\<close>

theorem signup_401_only_logged:
  "pollUnregisteredTargets ''jwt'' False
     \<lparr>http = [Response 200 [] (Inr [acme]), Response 401 [] (Inr [])],
      chan = [], stdin = [''fresh''], knownSlugs = Map.empty, trace = []\<rparr> =
   Blocked
     \<lparr>http = [], chan = [], stdin = [''fresh''], knownSlugs = [''acme'' \<mapsto> True],
      trace =
        [Http (GetTargetsReq ''jwt'') (Response 200 [] (Inr [acme])),
         SignupCall ''acme'',
         Http (SignupReq ''jwt'' ''acme'') (Response 401 [] (Inr [])),
         Log ''unauthorized (401)'',
         Sleep 300000000000,
         HttpPending (GetTargetsReq ''jwt'')]\<rparr>"
  by (simp add: pollUnregisteredTargets_def pollUnregisteredTargets_for.simps
      pollUnregisteredTargets_body_def getUnregisteredTargets.simps signupTarget.simps
      targetBody_def LoadOrStore_def selectToken_def Do_def emit_def acme_def
      Minute_def Second_def)

text \<open>
  C7, as amended. On a command line that gives only options the program defines
  (\<^verbatim>\<open>-t tok\<close>, \<^verbatim>\<open>-t=tok\<close>, \<^verbatim>\<open>-v\<close>, \<^verbatim>\<open>-v=true\<close>, \<^verbatim>\<open>-v=false\<close>): if
  \<^verbatim>\<open>-t\<close> is absent or the credential given last is empty, \<^verbatim>\<open>main\<close> prints the
  usage message and leaves the process with status 1, and starts neither loop; if the
  credential given last is not empty, \<^verbatim>\<open>main\<close> starts
  \<^verbatim>\<open>pollUnregisteredTargets\<close> and \<^verbatim>\<open>mainLoop\<close> with it. When such options are
  followed by \<^verbatim>\<open>-h\<close> or \<^verbatim>\<open>-help\<close> (with one dash or two), the usage message is
  printed and the status is 0; when they are followed by a flag that is not defined,
  the error and the usage message are printed and the status is 2; whatever credential
  was given. On every command line, a loop is started only together with the other
  one and with a credential that is not empty. (The specification has a process
  without credential exit with a status that is not zero, and a process with one start
  both loops; the runs of the second theorem below do neither.)
\<close>

theorem main_requires_token:
  "(givenToken gs = None \<or> givenToken gs = Some [] \<longrightarrow>
      main (commandLine gs) = [Usage, OsExit 1] \<and> \<not> list_ex startsLoop (main (commandLine gs))) \<and>
   (\<forall>token. givenToken gs = Some token \<and> token \<noteq> [] \<longrightarrow>
      main (commandLine gs) =
        [Go_pollUnregisteredTargets token Map.empty (verboseOf gs),
         Call_mainLoop token (verboseOf gs)]) \<and>
   (h \<in> set [''-h'', ''--h'', ''-help'', ''--help''] \<longrightarrow>
      main (commandLine gs @ h # rest) = [Usage, OsExit 0]) \<and>
   (name \<noteq> [] \<and> CHR ''-'' \<notin> set name \<and> CHR ''='' \<notin> set name \<and>
    name \<notin> set [''t'', ''v'', ''h'', ''help''] \<longrightarrow>
      main (commandLine gs @ (CHR ''-'' # name) # rest) =
        [FlagError (NotDefined name), Usage, OsExit 2]) \<and>
   (list_ex startsLoop (main args) \<longrightarrow>
      (\<exists>token verbose. token \<noteq> [] \<and>
         main args = [Go_pollUnregisteredTargets token Map.empty verbose,
                      Call_mainLoop token verbose]))"
proof (intro conjI impI allI)
  assume "givenToken gs = None \<or> givenToken gs = Some []"
  then show "main (commandLine gs) = [Usage, OsExit 1]"
    by (auto simp: main_commandLine)
  then show "\<not> list_ex startsLoop (main (commandLine gs))"
    by (simp add: startsLoop_def)
next
  fix token
  assume "givenToken gs = Some token \<and> token \<noteq> []"
  then show "main (commandLine gs) =
        [Go_pollUnregisteredTargets token Map.empty (verboseOf gs),
         Call_mainLoop token (verboseOf gs)]"
    by (simp add: main_commandLine)
next
  assume "h \<in> set [''-h'', ''--h'', ''-help'', ''--help'']"
  then show "main (commandLine gs @ h # rest) = [Usage, OsExit 0]" by (rule main_help)
next
  assume "name \<noteq> [] \<and> CHR ''-'' \<notin> set name \<and> CHR ''='' \<notin> set name \<and>
    name \<notin> set [''t'', ''v'', ''h'', ''help'']"
  then show "main (commandLine gs @ (CHR ''-'' # name) # rest) =
        [FlagError (NotDefined name), Usage, OsExit 2]"
    using main_undefined by blast
next
  assume "list_ex startsLoop (main args)"
  with main_forms [of args] show "\<exists>token verbose. token \<noteq> [] \<and>
         main args = [Go_pollUnregisteredTargets token Map.empty verbose,
                      Call_mainLoop token verbose]"
    by (auto simp: startsLoop_def)
qed

theorem main_requires_token_counterexample:
  "main [''-h''] = [Usage, OsExit 0] \<and>
   main [''-t'', ''jwt'', ''-h''] = [Usage, OsExit 0] \<and>
   main [''-t'', ''jwt'', ''-x''] = [FlagError (NotDefined ''x''), Usage, OsExit 2]"
  by (simp add: main_def flag_Parse_def flag_Parse_from.simps parseOne_def Let_def)

theorem main_requires_token_witness:
  "main [''-v''] = [Usage, OsExit 1] \<and>
   \<not> list_ex startsLoop (main [''-v'']) \<and>
   main [''-t'', ''''] = [Usage, OsExit 1] \<and>
   main [''-t=old'', ''-v'', ''-t'', ''jwt''] =
     [Go_pollUnregisteredTargets ''jwt'' Map.empty True, Call_mainLoop ''jwt'' True] \<and>
   main [''-t'', ''jwt'', ''--help'', ''-v''] = [Usage, OsExit 0] \<and>
   main [''-t'', ''jwt'', ''-verbose'', ''-v''] = [FlagError (NotDefined ''verbose''), Usage, OsExit 2] \<and>
   list_ex startsLoop (main [''-t'', ''jwt'']) \<and>
   main [''-t'', ''jwt''] =
     [Go_pollUnregisteredTargets ''jwt'' Map.empty False, Call_mainLoop ''jwt'' False]"
  using main_requires_token [of "[Verbose]" "''-h''" "[]" "''x''" "[]"]
    main_requires_token [of "[Token []]" "''-h''" "[]" "''x''" "[]"]
    main_requires_token [of "[TokenEq ''old'', Verbose, Token ''jwt'']" "''-h''" "[]" "''x''" "[]"]
    main_requires_token [of "[Token ''jwt'']" "''--help''" "[''-v'']" "''verbose''" "[''-t'', ''jwt'']"]
  by (simp add: commandLine_def verboseOf_def startsLoop_def)

text \<open>
  C8. A slug is in the Known-Slugs Set as soon as a registration request for it is
  issued: in the world a run ends in, every slug with a registration request, whether
  answered with success, with an error, or not answered at all, is in the set, and
  \<^verbatim>\<open>signupTarget\<close> was called for it exactly once, so a failed registration is
  not tried again on a later cycle. For a new slug the pass through the loop body
  leaves the slug stored whatever \<^verbatim>\<open>signupTarget\<close> returns.
\<close>

theorem failed_registration_stays_known:
  "(trace w = [] \<and> slug \<in> set (signupAttempts (trace (out_world (pollUnregisteredTargets token verbose w)))) \<longrightarrow>
      slug \<in> dom (knownSlugs (out_world (pollUnregisteredTargets token verbose w))) \<and>
      count_list (signupCalls (trace (out_world (pollUnregisteredTargets token verbose w)))) slug = 1) \<and>
   (Slug t \<notin> dom (knownSlugs w) \<longrightarrow>
      knownSlugs (ctl_world (targetBody token t w)) (Slug t) = Some True)"
proof (intro conjI impI)
  let ?w' = "out_world (pollUnregisteredTargets token verbose w)"
  assume a: "trace w = [] \<and> slug \<in> set (signupAttempts (trace ?w'))"
  then have "pollerInv w" by (simp add: pollerInv_def)
  then have i: "pollerInv ?w'" by (rule pollUnregisteredTargets_Inv)
  with a have c: "slug \<in> set (signupCalls (trace ?w'))" by (auto simp: pollerInv_def)
  with i show "slug \<in> dom (knownSlugs ?w')" by (auto simp: pollerInv_def)
  from i have "distinct (signupCalls (trace ?w'))" by (simp add: pollerInv_def)
  with c show "count_list (signupCalls (trace ?w')) slug = 1" by (simp add: distinct_count_list)
next
  assume "Slug t \<notin> dom (knownSlugs w)"
  then show "knownSlugs (ctl_world (targetBody token t w)) (Slug t) = Some True"
    by (simp add: targetBody_stores)
qed


theorem failed_registration_stays_known_witness:
  "trace failedSignup = [] \<and>
   signupAttempts (trace (out_world (pollUnregisteredTargets ''jwt'' False failedSignup))) = [''acme''] \<and>
   knownSlugs (out_world (pollUnregisteredTargets ''jwt'' False failedSignup)) ''acme'' = Some True \<and>
   count_list (signupCalls (trace (out_world (pollUnregisteredTargets ''jwt'' False failedSignup)))) ''acme'' = 1 \<and>
   Slug acme \<notin> dom (knownSlugs failedSignup) \<and>
   knownSlugs (ctl_world (targetBody ''jwt'' acme
     (script [Response 401 [] (Inr [])] :: Target list world))) ''acme'' = Some True"
  using failed_registration_stays_known [of failedSignup "''acme''" "''jwt''" False acme]
    failed_registration_stays_known [of "script [Response 401 [] (Inr [])]" "''acme''" "''jwt''" False acme]
  by (simp add: failedSignup_run acme_def) (simp add: failedSignup_def script_def)

text \<open>
  C9. Let some passes of the outer loop of \<^verbatim>\<open>mainLoop\<close> be over and the next pass
  fetch the batch \<open>pre @ task # post\<close>; let the claims for \<open>pre\<close> leave
  \<^verbatim>\<open>consecutive403Count\<close> at 4 and the claim for \<open>task\<close> be answered 403. Then
  \<^verbatim>\<open>mainLoop\<close> returns (its loop ends by \<open>Exit\<close> with the counter at 5), in the
  world reached right after the two log lines: nothing is requested for the missions
  of \<open>post\<close>, the rest of the script is not consumed, and no further fetch is made.
\<close>

theorem fifth_forbidden_returns:
  assumes "mainLoop_passes k token0 0 verbose w0 = Next (token, n) w"
    and "selectToken token w = (token1, w1)"
    and "getTasks token1 (if verbose then emit (Log ''Checking for available missions...'') w1 else w1)
           = Return (Inr (pre @ task # post)) w3"
    and "claimTasks token1 n pre w3 = Next (token2, 4) w4"
    and "http w4 = Response 403 retryAfter body # rest"
  shows "mainLoop token0 verbose w0 =
           Return ()
             (w4\<lparr>http := rest,
                 trace := trace w4 @
                   [Http (ClaimReq token2 task) (Response 403 retryAfter body),
                    Log ''Got 403. Current consecutive403Count = 5'',
                    Log ''Received 403 five times in a row. Stopping the bot.'']\<rparr>) \<and>
         mainLoop_for token0 0 verbose w0 =
           Exit (token2, 5)
             (w4\<lparr>http := rest,
                 trace := trace w4 @
                   [Http (ClaimReq token2 task) (Response 403 retryAfter body),
                    Log ''Got 403. Current consecutive403Count = 5'',
                    Log ''Received 403 five times in a row. Stopping the bot.'']\<rparr>)"
proof -
  define w5 where "w5 =
    w4\<lparr>http := rest,
       trace := trace w4 @
         [Http (ClaimReq token2 task) (Response 403 retryAfter body),
          Log ''Got 403. Current consecutive403Count = 5'',
          Log ''Received 403 five times in a row. Stopping the bot.'']\<rparr>"
  have five: "itoa 5 = ''5''"
    by (simp add: itoa_def itoa_nat.simps digit_def)
  from assms(5) have "claimBody token2 4 task w4 = Exit (token2, 5) w5"
    by (simp add: claimBody_403 five emit_def w5_def)
  then have "claimTasks token2 4 (task # post) w4 = Exit (token2, 5) w5"
    by simp
  with assms(4) have "claimTasks token1 n (pre @ task # post) w3 = Exit (token2, 5) w5"
    by (simp add: claimTasks_append)
  with assms(2,3) have "mainLoop_body token n verbose w = Exit (token2, 5) w5"
    by (simp add: mainLoop_body_def)
  then have "mainLoop_for token n verbose w = Exit (token2, 5) w5"
    by (subst mainLoop_for.simps) simp
  with mainLoop_for_passes [OF assms(1)]
  have e: "mainLoop_for token0 0 verbose w0 = Exit (token2, 5) w5"
    by simp
  then have "mainLoop token0 verbose w0 = Return () w5"
    by (simp add: mainLoop_def)
  with e show ?thesis by (simp add: w5_def)
qed

theorem fifth_forbidden_returns_witness:
  "mainLoop ''jwt'' False
     (script [Response 200 [] (Inr [task1, task2]), status 403, status 403,
              Response 200 [] (Inr sixTasks), status 403, status 403, status 403,
              status 201, Response 200 [] (Inr [])]) =
   Return ()
     \<lparr>http = [status 201, Response 200 [] (Inr [])], chan = [], stdin = [],
      knownSlugs = Map.empty,
      trace =
        [Http (GetTasksReq ''jwt'') (Response 200 [] (Inr [task1, task2])),
         Http (ClaimReq ''jwt'' task1) (status 403),
         Log ''Got 403. Current consecutive403Count = 1'',
         Http (ClaimReq ''jwt'' task2) (status 403),
         Log ''Got 403. Current consecutive403Count = 2'',
         Sleep 15000000000,
         Http (GetTasksReq ''jwt'') (Response 200 [] (Inr sixTasks)),
         Http (ClaimReq ''jwt'' task1) (status 403),
         Log ''Got 403. Current consecutive403Count = 3'',
         Http (ClaimReq ''jwt'' task2) (status 403),
         Log ''Got 403. Current consecutive403Count = 4'',
         Http (ClaimReq ''jwt'' task1) (status 403),
         Log ''Got 403. Current consecutive403Count = 5'',
         Log ''Received 403 five times in a row. Stopping the bot.'']\<rparr>"
proof -
  let ?start = "script [Response 200 [] (Inr [task1, task2]), status 403, status 403,
              Response 200 [] (Inr sixTasks), status 403, status 403, status 403,
              status 201, Response 200 [] (Inr [])]"
  let ?tr1 = "[Http (GetTasksReq ''jwt'') (Response 200 [] (Inr [task1, task2])),
               Http (ClaimReq ''jwt'' task1) (status 403),
               Log ''Got 403. Current consecutive403Count = 1'',
               Http (ClaimReq ''jwt'' task2) (status 403),
               Log ''Got 403. Current consecutive403Count = 2'',
               Sleep 15000000000]"
  let ?w = "\<lparr>http = [Response 200 [] (Inr sixTasks), status 403, status 403, status 403,
                      status 201, Response 200 [] (Inr [])],
              chan = [], stdin = [], knownSlugs = Map.empty, trace = ?tr1\<rparr>"
  let ?w3 = "\<lparr>http = [status 403, status 403, status 403, status 201, Response 200 [] (Inr [])],
               chan = [], stdin = [], knownSlugs = Map.empty,
               trace = ?tr1 @ [Http (GetTasksReq ''jwt'') (Response 200 [] (Inr sixTasks))]\<rparr>"
  let ?w4 = "\<lparr>http = [status 403, status 201, Response 200 [] (Inr [])],
               chan = [], stdin = [], knownSlugs = Map.empty,
               trace = ?tr1 @
                 [Http (GetTasksReq ''jwt'') (Response 200 [] (Inr sixTasks)),
                  Http (ClaimReq ''jwt'' task1) (status 403),
                  Log ''Got 403. Current consecutive403Count = 3'',
                  Http (ClaimReq ''jwt'' task2) (status 403),
                  Log ''Got 403. Current consecutive403Count = 4'']\<rparr>"
  have p: "mainLoop_passes (Suc 0) ''jwt'' 0 False ?start = Next (''jwt'', 2) ?w"
    by (simp add: mainLoop_body_def getTasks.simps claimBody_def postClaimTask_def Do_def
        emit_def selectToken_def script_def status_def Let_def Second_def
        itoa_def itoa_nat.simps digit_def)
  have a: "selectToken ''jwt'' ?w = (''jwt'', ?w)"
    by (simp add: selectToken_def)
  have b: "getTasks ''jwt'' (if False then emit (Log ''Checking for available missions...'') ?w else ?w)
             = Return (Inr ([task1, task2] @ task1 # [task2, task1, task2])) ?w3"
    by (simp add: getTasks.simps Do_def emit_def sixTasks_def)
  have c: "claimTasks ''jwt'' 2 [task1, task2] ?w3 = Next (''jwt'', 4) ?w4"
    by (simp add: claimBody_def postClaimTask_def Do_def emit_def status_def Let_def
        itoa_def itoa_nat.simps digit_def)
  have d: "http ?w4 = Response 403 [] (Inr []) # [status 201, Response 200 [] (Inr [])]"
    by (simp add: status_def)
  from fifth_forbidden_returns [OF p a b c d] show ?thesis
    by (simp add: status_def)
qed



end
